theory Spec2Isabelle
  imports Complex_Main "HOL-Library.Word" "HOL-Library.Sublist" "HOL-Library.AList"
begin

section \<open>Text: characters, case, character classes\<close>

text \<open>
  A Python \<open>str\<close> is modelled as a \<^typ>\<open>string\<close> whose characters are the code points
  below 256. On that range \<open>str.lower\<close> maps one character to one character, and the
  classes of the \<open>re\<close> module and of \<open>str.split\<close> are the finite sets written out below.
  The search for the injection signatures is given on the texts of all code points as well,
  further down: its patterns fold the case of a letter, which reaches beyond 255.
\<close>

definition py_lower_char :: "char \<Rightarrow> char" where
  "py_lower_char c =
     (let n = (of_char c :: nat)
      in if (65 \<le> n \<and> n \<le> 90) \<or> (192 \<le> n \<and> n \<le> 214) \<or> (216 \<le> n \<and> n \<le> 222)
         then char_of (n + 32) else c)"

definition py_lower :: "string \<Rightarrow> string" where
  "py_lower s = map py_lower_char s"

definition is_word_char :: "char \<Rightarrow> bool" where
  \<comment> \<open>\<open>\w\<close> of a \<open>str\<close> pattern: alphanumeric characters and the underscore.\<close>
  "is_word_char c =
     (let n = (of_char c :: nat)
      in (48 \<le> n \<and> n \<le> 57) \<or> (65 \<le> n \<and> n \<le> 90) \<or> n = 95 \<or> (97 \<le> n \<and> n \<le> 122)
         \<or> n \<in> {170, 178, 179, 181, 185, 186, 188, 189, 190}
         \<or> (192 \<le> n \<and> n \<le> 214) \<or> (216 \<le> n \<and> n \<le> 246) \<or> 248 \<le> n)"

definition is_space :: "char \<Rightarrow> bool" where
  \<comment> \<open>\<open>str.isspace\<close>, the separators of \<open>str.split()\<close>.\<close>
  "is_space c =
     (let n = (of_char c :: nat)
      in (9 \<le> n \<and> n \<le> 13) \<or> (28 \<le> n \<and> n \<le> 32) \<or> n = 133 \<or> n = 160)"

section \<open>The regular expressions of the source\<close>

text \<open>
  The patterns of the source use literals (with or without \<open>(?i)\<close>), bracket classes,
  \<open>\w\<close>, the dot (with or without \<open>DOTALL\<close>), and the repetitions \<open>?\<close>, \<open>+\<close> and \<open>*?\<close>
  on single characters. A pattern is the list of its items; \<open>run_by\<close> is the backtracking
  matcher at one position and returns the text left after the first match it finds, trying
  the alternatives in the order of the \<open>re\<close> module. What one character of a pattern
  accepts depends on the characters a text is made of, and is the first argument of the
  matcher; \<open>accepts\<close> says it for the texts of this model, and \<open>run\<close> and \<open>re_search\<close> are
  the matcher and the search on them.
\<close>

datatype atom = Lit char | LitI char | OneOf "char list" | Word | Dot | DotAll

datatype item = One atom | Opt atom | Plus atom | Star atom | LazyStar atom

fun accepts :: "atom \<Rightarrow> char \<Rightarrow> bool" where
  "accepts (Lit p) c = (c = p)"
| "accepts (LitI p) c = (py_lower_char c = py_lower_char p)"
| "accepts (OneOf ps) c = (c \<in> set ps)"
| "accepts Word c = is_word_char c"
| "accepts Dot c = (c \<noteq> CHR 0x0A)"
| "accepts DotAll c = True"

fun run_by :: "(atom \<Rightarrow> 'c \<Rightarrow> bool) \<Rightarrow> item list \<Rightarrow> 'c list \<Rightarrow> 'c list option" where
  "run_by acc [] s = Some s"
| "run_by acc (One a # r) s =
     (case s of [] \<Rightarrow> None | c # cs \<Rightarrow> if acc a c then run_by acc r cs else None)"
| "run_by acc (Opt a # r) s =
     (case (case s of [] \<Rightarrow> None | c # cs \<Rightarrow> if acc a c then run_by acc r cs else None) of
        Some t \<Rightarrow> Some t
      | None \<Rightarrow> run_by acc r s)"
| "run_by acc (Plus a # r) s =
     (case s of [] \<Rightarrow> None
      | c # cs \<Rightarrow> if acc a c then run_by acc (Star a # r) cs else None)"
| "run_by acc (Star a # r) s =
     (case (case s of [] \<Rightarrow> None
            | c # cs \<Rightarrow> if acc a c then run_by acc (Star a # r) cs else None) of
        Some t \<Rightarrow> Some t
      | None \<Rightarrow> run_by acc r s)"
| "run_by acc (LazyStar a # r) s =
     (case run_by acc r s of
        Some t \<Rightarrow> Some t
      | None \<Rightarrow> (case s of [] \<Rightarrow> None
                 | c # cs \<Rightarrow> if acc a c then run_by acc (LazyStar a # r) cs else None))"

fun re_search_by :: "(atom \<Rightarrow> 'c \<Rightarrow> bool) \<Rightarrow> item list \<Rightarrow> 'c list \<Rightarrow> bool" where
  \<comment> \<open>\<open>re.search(p, s)\<close> as a truth value: a match at some position, the end included.\<close>
  "re_search_by acc p [] = (run_by acc p [] \<noteq> None)"
| "re_search_by acc p (c # cs) = (run_by acc p (c # cs) \<noteq> None \<or> re_search_by acc p cs)"

abbreviation run :: "item list \<Rightarrow> string \<Rightarrow> string option" where
  "run \<equiv> run_by accepts"

abbreviation re_search :: "item list \<Rightarrow> string \<Rightarrow> bool" where
  "re_search \<equiv> re_search_by accepts"

function re_sub :: "item list \<Rightarrow> string \<Rightarrow> string" where
  \<comment> \<open>\<open>re.sub(p, '', s)\<close>: one scan from the left; after a match the scan goes on behind it.\<close>
  "re_sub p [] = []"
| "re_sub p (c # cs) =
     (case run p (c # cs) of
        None \<Rightarrow> c # re_sub p cs
      | Some t \<Rightarrow> if length t \<le> length cs then re_sub p t else c # re_sub p cs)"
  by pat_completeness auto
termination
  by (relation "measure (\<lambda>(p, s). length s)") auto

function re_split :: "item list \<Rightarrow> string \<Rightarrow> string \<Rightarrow> string list" where
  \<comment> \<open>\<open>re.split(p, s)\<close>: the stretches of the text between the matches of the same scan;
      the second argument is the stretch being collected.\<close>
  "re_split p cur [] = [cur]"
| "re_split p cur (c # cs) =
     (case run p (c # cs) of
        None \<Rightarrow> re_split p (cur @ [c]) cs
      | Some t \<Rightarrow> if length t \<le> length cs then cur # re_split p [] t
                 else re_split p (cur @ [c]) cs)"
  by pat_completeness auto
termination
  by (relation "measure (\<lambda>(p, cur, s). length s)") auto

definition lit :: "string \<Rightarrow> item list" where
  "lit w = map (\<lambda>c. One (Lit c)) w"

definition lit_i :: "string \<Rightarrow> item list" where
  "lit_i w = map (\<lambda>c. One (LitI c)) w"

definition injection_patterns :: "item list list" where
  "injection_patterns =
     [lit_i ''ignore previous instructions'',
      lit_i ''system prompt'',
      lit_i ''forget everything'',
      lit_i ''output as code'',
      lit_i ''reveal secret'',
      [One (OneOf ''[('')] @ lit ''inject'' @ [One (OneOf ''])'')],
      lit ''base64'',
      lit ''http'' @ [Opt (OneOf ''s'')] @ lit ''://'']"

definition script_block :: "item list" where
  \<comment> \<open>\<open><script.*?</script>\<close> with \<open>IGNORECASE | DOTALL\<close>\<close>
  "script_block = lit_i ''<script'' @ [LazyStar DotAll] @ lit_i ''</script>''"

definition handler_attr :: "item list" where
  \<comment> \<open>\<open>on\w+=["'].*?["']\<close>, no flags\<close>
  "handler_attr =
     lit ''on'' @ [Plus Word, One (Lit (CHR ''='')), One (OneOf [CHR 0x22, CHR 0x27]),
                  LazyStar Dot, One (OneOf [CHR 0x22, CHR 0x27])]"

section \<open>Texts of all code points\<close>

text \<open>
  The signatures that \<open>detect_injection\<close> looks for are made of ASCII characters, and what
  such a character of a pattern accepts is known for every code point of a text: a literal
  accepts its own code point; under \<open>(?i)\<close> it accepts the code points whose lower case
  is that of the literal and, from 256 on, the few that the \<open>re\<close> module adds (the long s
  for \<open>s\<close>, the dotted capital and the dotless small i for \<open>i\<close>, the Kelvin sign for
  \<open>k\<close>, and the other forms of the micro sign, the sharp s, the a with a ring and the y
  with a diaeresis). Which code points from 256 on \<open>\w\<close> accepts is the interpreter's table
  of alphanumeric characters, a parameter here; no pattern of \<open>detect_injection\<close> uses
  \<open>\w\<close>. On the code points below 256 \<open>accepts_wide\<close> is \<open>accepts\<close>, and a text is any
  list of code points.
\<close>

type_synonym code_point = nat

definition code_points :: "string \<Rightarrow> code_point list" where
  "code_points s = map of_char s"

definition beyond_latin :: "char \<Rightarrow> code_point list" where
  \<comment> \<open>the code points from 256 on that a literal accepts under \<open>(?i)\<close>\<close>
  "beyond_latin p =
     (let l = py_lower_char p
      in if l = CHR ''i'' then [0x130, 0x131]
         else if l = CHR ''k'' then [0x212A]
         else if l = CHR ''s'' then [0x17F]
         else if l = CHR 0xB5 then [0x39C, 0x3BC]
         else if l = CHR 0xDF then [0x1E9E]
         else if l = CHR 0xE5 then [0x212B]
         else if l = CHR 0xFF then [0x178]
         else [])"

fun accepts_wide :: "(code_point \<Rightarrow> bool) \<Rightarrow> atom \<Rightarrow> code_point \<Rightarrow> bool" where
  "accepts_wide alnum (Lit p) c = (c = of_char p)"
| "accepts_wide alnum (LitI p) c =
     (if c < 256 then py_lower_char (char_of c) = py_lower_char p
      else c \<in> set (beyond_latin p))"
| "accepts_wide alnum (OneOf ps) c = (c \<in> set (code_points ps))"
| "accepts_wide alnum Word c = (if c < 256 then is_word_char (char_of c) else alnum c)"
| "accepts_wide alnum Dot c = (c \<noteq> 10)"
| "accepts_wide alnum DotAll c = True"

definition caseless :: "code_point \<Rightarrow> code_point" where
  \<comment> \<open>a code point read without its case: a capital as its small letter, and the long s,
      the two other forms of i and the Kelvin sign as the ASCII letter they stand for\<close>
  "caseless c =
     (if c < 256 then of_char (py_lower_char (char_of c))
      else if c = 0x130 \<or> c = 0x131 then of_char (CHR ''i'')
      else if c = 0x17F then of_char (CHR ''s'')
      else if c = 0x212A then of_char (CHR ''k'')
      else c)"

section \<open>Built-in string operations\<close>

fun py_in :: "string \<Rightarrow> string \<Rightarrow> bool" where
  \<comment> \<open>\<open>needle in hay\<close>\<close>
  "py_in needle [] = (needle = [])"
| "py_in needle (c # cs) = (prefix needle (c # cs) \<or> py_in needle cs)"

fun split_ws :: "string \<Rightarrow> string \<Rightarrow> string list" where
  "split_ws cur [] = (if cur = [] then [] else [cur])"
| "split_ws cur (c # cs) =
     (if is_space c then (if cur = [] then split_ws [] cs else cur # split_ws [] cs)
      else split_ws (cur @ [c]) cs)"

definition py_split :: "string \<Rightarrow> string list" where
  \<comment> \<open>\<open>s.split()\<close>: the maximal runs of characters that are not white space\<close>
  "py_split s = split_ws [] s"

function words_of :: "string \<Rightarrow> string list" where
  \<comment> \<open>the white-space-delimited tokens as the specification words them: skip the white
      space, take the characters up to the next white space, go on behind them\<close>
  "words_of s =
     (case dropWhile is_space s of
        [] \<Rightarrow> []
      | c # cs \<Rightarrow>
          takeWhile (\<lambda>x. \<not> is_space x) (c # cs)
            # words_of (dropWhile (\<lambda>x. \<not> is_space x) (c # cs)))"
  by pat_completeness auto
termination
proof (relation "measure length")
  show "wf (measure length)" by simp
next
  fix s :: string and c cs
  assume d: "dropWhile is_space s = c # cs"
  have "\<not> is_space c" using d hd_dropWhile [of is_space s] by auto
  then have "length (dropWhile (\<lambda>x. \<not> is_space x) (c # cs)) \<le> length cs"
    by (simp add: length_dropWhile_le)
  moreover have "length (c # cs) \<le> length s"
    using d length_dropWhile_le [of is_space s] by simp
  ultimately show "(dropWhile (\<lambda>x. \<not> is_space x) (c # cs), s) \<in> measure length"
    by simp
qed

declare words_of.simps [simp del]

fun py_join :: "string \<Rightarrow> string list \<Rightarrow> string" where
  "py_join sep [] = []"
| "py_join sep [x] = x"
| "py_join sep (x # y # ys) = x @ sep @ py_join sep (y # ys)"

definition repr_str :: "string \<Rightarrow> string" where
  \<comment> \<open>\<open>repr\<close> of a string of letters: the string in single quotes\<close>
  "repr_str s = [CHR 0x27] @ s @ [CHR 0x27]"

definition repr_dict :: "(string \<times> string) list \<Rightarrow> string" where
  "repr_dict d = ''{'' @ py_join '', '' (map (\<lambda>(k, v). repr_str k @ '': '' @ repr_str v) d) @ ''}''"

section \<open>Errors, the filter and its surroundings\<close>

datatype error =
    KeyError
  | FileNotFoundError
  | IsADirectoryError
  | NotADirectoryError
  | FileExistsError
  | UnicodeDecodeError
  | PermissionError
  | OSError nat

type_synonym byte = "8 word"

type_synonym dict = "(string \<times> string) list"

definition dict_get :: "dict \<Rightarrow> string \<Rightarrow> error + string" where
  \<comment> \<open>\<open>d[k]\<close>\<close>
  "dict_get d k = (case map_of d k of None \<Rightarrow> Inl KeyError | Some v \<Rightarrow> Inr v)"

record section_record =
  content :: string
  traits :: dict

record scroll_filter =
  mood_threshold :: real
  symbolic_memory :: "string \<rightharpoonup> section_record"
  session_id :: string
  backup_dir :: string

text \<open>
  The surroundings of a filter: the file system as a map from path strings to what the
  path resolves to, the bytes the operating system's random source will deliver (with
  the number already drawn), the clock, and the lines printed so far (each one recorded by
  the path it names). The text of a file is what reading it in text mode as UTF-8 returns;
  \<open>Binary\<close> is a file that does not decode. A path with no entry is absent: looking it up
  fails with "no such file or directory" or "not a directory". \<open>Refused e\<close> is a path that
  the operating system declines to look up for another reason, with the error every call on
  the path raises: \<open>OSError 36\<close> for a name that is too long, \<open>PermissionError\<close> for a
  directory on the way that may not be searched. The rights to read and to write a file that
  can be looked up are not modelled.
\<close>

datatype file_data = Text string | Binary

datatype node = Directory | File file_data | Refused error

record world =
  files :: "string \<rightharpoonup> node"
  entropy :: "nat \<Rightarrow> byte"
  drawn :: nat
  clock :: nat
  notices :: "string list"

text \<open>
  The token \<open>Fernet(key)\<close> makes of a text is a function of the key, the time, the
  initialisation vector and the text. The library is not part of the repository: the
  function is a parameter of the methods that encrypt.
\<close>

type_synonym fernet = "byte list \<Rightarrow> nat \<Rightarrow> byte list \<Rightarrow> string \<Rightarrow> string"

definition node_at :: "world \<Rightarrow> string \<Rightarrow> node option" where
  "node_at w p = (if p = [] \<or> p = ''.'' \<or> p = ''/'' then Some Directory else files w p)"

definition parent :: "string \<Rightarrow> string" where
  \<comment> \<open>the path of the directory that holds the entry: the text before the last slash\<close>
  "parent p = rev (drop 1 (dropWhile (\<lambda>c. c \<noteq> CHR ''/'') (rev p)))"

fun split_on :: "char \<Rightarrow> string \<Rightarrow> string \<Rightarrow> string list" where
  "split_on sep cur [] = [cur]"
| "split_on sep cur (c # cs) =
     (if c = sep then cur # split_on sep [] cs else split_on sep (cur @ [c]) cs)"

definition path_name :: "string \<Rightarrow> string" where
  \<comment> \<open>\<open>Path(p).name\<close>: the last component, empty and \<open>.\<close> components dropped\<close>
  "path_name p =
     (case filter (\<lambda>part. part \<noteq> [] \<and> part \<noteq> ''.'') (split_on (CHR ''/'') [] p) of
        [] \<Rightarrow> []
      | part # parts \<Rightarrow> last (part # parts))"

definition path_stem :: "string \<Rightarrow> string" where
  \<comment> \<open>\<open>Path(p).stem\<close>: the name without its last suffix; a dot that starts or ends the
      name starts no suffix\<close>
  "path_stem p =
     (let name = path_name p;
          suffix_len = length (takeWhile (\<lambda>c. c \<noteq> CHR ''.'') (rev name))
      in if CHR ''.'' \<in> set name \<and> 0 < suffix_len \<and> Suc suffix_len < length name
         then take (length name - Suc suffix_len) name else name)"

definition path_join :: "string \<Rightarrow> string \<Rightarrow> string" where
  \<comment> \<open>\<open>str(Path(d) / name)\<close> for a directory path in \<open>Path\<close>'s normal form\<close>
  "path_join d name =
     (if d = [] \<or> d = ''.'' then name
      else if last d = CHR ''/'' then d @ name
      else d @ ''/'' @ name)"

definition py_path :: "string \<Rightarrow> string" where
  \<comment> \<open>\<open>str(Path(p))\<close>: empty components, \<open>.\<close> components and a slash at the end go; two
      slashes at the start stay, three or more are one\<close>
  "py_path p =
     (let parts = filter (\<lambda>part. part \<noteq> [] \<and> part \<noteq> ''.'') (split_on (CHR ''/'') [] p);
          root = (if take 2 p = ''//'' \<and> take 3 p \<noteq> ''///'' then ''//''
                  else if take 1 p = ''/'' then ''/''
                  else [])
      in if root = [] \<and> parts = [] then ''.'' else root @ py_join ''/'' parts)"

definition path_exists :: "world \<Rightarrow> string \<Rightarrow> error + bool" where
  \<comment> \<open>\<open>Path.exists()\<close>: false for an absent path; any other error of the lookup is raised\<close>
  "path_exists w p =
     (case node_at w p of
        None \<Rightarrow> Inr False
      | Some (Refused e) \<Rightarrow> Inl e
      | Some Directory \<Rightarrow> Inr True
      | Some (File d) \<Rightarrow> Inr True)"

definition read_text :: "world \<Rightarrow> string \<Rightarrow> error + string" where
  \<comment> \<open>\<open>open('r', encoding='utf-8')\<close> and \<open>read()\<close>\<close>
  "read_text w p =
     (case node_at w p of
        None \<Rightarrow> Inl FileNotFoundError
      | Some Directory \<Rightarrow> Inl IsADirectoryError
      | Some (Refused e) \<Rightarrow> Inl e
      | Some (File Binary) \<Rightarrow> Inl UnicodeDecodeError
      | Some (File (Text s)) \<Rightarrow> Inr s)"

definition enter_dir :: "world \<Rightarrow> string \<Rightarrow> error + unit" where
  \<comment> \<open>creating an entry needs the directory that holds it\<close>
  "enter_dir w p =
     (case node_at w (parent p) of
        None \<Rightarrow> Inl FileNotFoundError
      | Some (File d) \<Rightarrow> Inl NotADirectoryError
      | Some (Refused e) \<Rightarrow> Inl e
      | Some Directory \<Rightarrow> Inr ())"

definition write_bytes :: "world \<Rightarrow> string \<Rightarrow> string \<Rightarrow> error + world" where
  \<comment> \<open>\<open>open('wb')\<close> and \<open>write\<close>: creates the file or replaces its content\<close>
  "write_bytes w p d =
     (case node_at w p of
        Some Directory \<Rightarrow> Inl IsADirectoryError
      | Some (Refused e) \<Rightarrow> Inl e
      | Some (File old) \<Rightarrow> Inr (w\<lparr>files := (files w)(p \<mapsto> File (Text d))\<rparr>)
      | None \<Rightarrow>
          (case enter_dir w p of
             Inl e \<Rightarrow> Inl e
           | Inr u \<Rightarrow> Inr (w\<lparr>files := (files w)(p \<mapsto> File (Text d))\<rparr>)))"

definition writable :: "world \<Rightarrow> string \<Rightarrow> bool" where
  \<comment> \<open>\<open>open('wb')\<close> raises nothing: the path is a file, or is free in a directory\<close>
  "writable w p =
     (case node_at w p of
        Some Directory \<Rightarrow> False
      | Some (Refused e) \<Rightarrow> False
      | Some (File old) \<Rightarrow> True
      | None \<Rightarrow> enter_dir w p = Inr ())"

definition mkdir_exist_ok :: "world \<Rightarrow> string \<Rightarrow> error + world" where
  \<comment> \<open>\<open>Path.mkdir(exist_ok=True)\<close>\<close>
  "mkdir_exist_ok w p =
     (case node_at w p of
        Some Directory \<Rightarrow> Inr w
      | Some (Refused e) \<Rightarrow> Inl e
      | Some (File old) \<Rightarrow> Inl FileExistsError
      | None \<Rightarrow>
          (case enter_dir w p of
             Inl e \<Rightarrow> Inl e
           | Inr u \<Rightarrow> Inr (w\<lparr>files := (files w)(p \<mapsto> Directory)\<rparr>)))"

definition urandom :: "nat \<Rightarrow> world \<Rightarrow> byte list \<times> world" where
  "urandom n w = (map (entropy w) [drawn w ..< drawn w + n], w\<lparr>drawn := drawn w + n\<rparr>)"

definition hex_digit :: "nat \<Rightarrow> char" where
  "hex_digit n = ''0123456789abcdef'' ! (n mod 16)"

definition hexlify :: "byte list \<Rightarrow> string" where
  "hexlify bs = concat (map (\<lambda>b. [hex_digit (unat b div 16), hex_digit (unat b)]) bs)"

definition token_hex :: "nat \<Rightarrow> world \<Rightarrow> string \<times> world" where
  \<comment> \<open>\<open>secrets.token_hex(n)\<close>\<close>
  "token_hex n w = (let (bs, w') = urandom n w in (hexlify bs, w'))"

definition generate_key :: "world \<Rightarrow> byte list \<times> world" where
  \<comment> \<open>\<open>Fernet.generate_key()\<close>: 32 bytes of the random source\<close>
  "generate_key w = urandom 32 w"

definition encrypt :: "fernet \<Rightarrow> byte list \<Rightarrow> string \<Rightarrow> world \<Rightarrow> string \<times> world" where
  \<comment> \<open>\<open>Fernet(key).encrypt(data)\<close>: reads the clock and draws a 16-byte initialisation vector\<close>
  "encrypt enc key d w = (let (iv, w') = urandom 16 w in (enc key (clock w) iv d, w'))"

section \<open>The methods of \<open>SymbolicScrollFocusFilter\<close>\<close>

text \<open>
  Every method takes the instance and returns it with its result, so that what a call
  does to the instance is part of what it returns; the methods that reach the file system
  or the random source thread the surroundings in the same way.
\<close>

definition generate_session_id :: "scroll_filter \<Rightarrow> world \<Rightarrow> string \<times> scroll_filter \<times> world" where
  "generate_session_id self w = (let (sid, w') = token_hex 16 w in (sid, self, w'))"

definition init :: "real \<Rightarrow> string \<Rightarrow> world \<Rightarrow> (error + scroll_filter) \<times> world" where
  \<comment> \<open>\<open>__init__(self, mood_threshold, backup_dir)\<close>\<close>
  "init threshold dir w =
     (let self0 = \<lparr>mood_threshold = threshold, symbolic_memory = Map.empty,
                   session_id = [], backup_dir = []\<rparr>;
          (sid, self1, w1) = generate_session_id self0 w;
          self2 = self1\<lparr>session_id := sid, backup_dir := py_path dir\<rparr>
      in case mkdir_exist_ok w1 (backup_dir self2) of
           Inl e \<Rightarrow> (Inl e, w1)
         | Inr w2 \<Rightarrow> (Inr self2, w2))"

definition detect_injection_by ::
    "(atom \<Rightarrow> 'c \<Rightarrow> bool) \<Rightarrow> scroll_filter \<Rightarrow> 'c list \<Rightarrow> bool \<times> scroll_filter" where
  "detect_injection_by acc self input_text =
     (list_ex (\<lambda>pattern. re_search_by acc pattern input_text) injection_patterns, self)"

abbreviation detect_injection :: "scroll_filter \<Rightarrow> string \<Rightarrow> bool \<times> scroll_filter" where
  "detect_injection \<equiv> detect_injection_by accepts"

definition extract_symbolic_traits :: "scroll_filter \<Rightarrow> string \<Rightarrow> dict \<times> scroll_filter" where
  "extract_symbolic_traits self text =
     (let t0 = [(''energy'', ''neutral''), (''ethics'', ''grounded'')];
          t1 = (if py_in ''chaotic'' (py_lower text) then AList.update ''ethics'' ''chaotic'' t0
                else t0);
          t2 = (if py_in ''energetic'' (py_lower text) then AList.update ''energy'' ''high'' t1
                else t1)
      in (t2, self))"

definition strip_markup :: "string \<Rightarrow> string" where
  \<comment> \<open>the two \<open>re.sub\<close> lines of \<open>sanitize_and_focus_context\<close>\<close>
  "strip_markup context = re_sub handler_attr (re_sub script_block context)"

definition focus_phrases :: "string list" where
  "focus_phrases = [''symbiosis'', ''compression'', ''truth'']"

definition sanitize_and_focus_context ::
    "scroll_filter \<Rightarrow> string \<Rightarrow> (error + string) \<times> scroll_filter" where
  "sanitize_and_focus_context self context =
     (let (injected, self1) = detect_injection self context
      in if injected
         then (Inr (''Suspicious input in session '' @ session_id self1
                      @ ''. Context neutralized.''), self1)
         else
           (let context1 = strip_markup context;
                (tr, self2) = extract_symbolic_traits self1 context1
            in (case dict_get tr ''ethics'' of
                  Inl e \<Rightarrow> (Inl e, self2)
                | Inr ethics \<Rightarrow>
                    if ethics = ''chaotic''
                    then (Inr (''Pruned context in '' @ session_id self2
                                 @ '' for symbiosis. Traits: '' @ repr_dict tr), self2)
                    else
                      (let focused_context =
                             py_join '' '' (filter (\<lambda>word. py_lower word \<in> set focus_phrases)
                                              (py_split context1))
                       in (Inr (''Focused context in '' @ session_id self2 @ '': ''
                                  @ focused_context @ ''. Traits: '' @ repr_dict tr), self2)))))"

definition backup_path :: "scroll_filter \<Rightarrow> string \<Rightarrow> string" where
  \<comment> \<open>\<open>self.backup_dir / f"{path.stem}_{self.session_id}.enc"\<close>\<close>
  "backup_path self file_path =
     path_join (backup_dir self) (path_stem file_path @ ''_'' @ session_id self @ ''.enc'')"

definition preserve_log ::
    "fernet \<Rightarrow> scroll_filter \<Rightarrow> world \<Rightarrow> string \<Rightarrow> string \<Rightarrow> (error + string) \<times> world" where
  \<comment> \<open>the lines of \<open>process_text_file\<close> under the comment "Encrypt and preserve log":
      the result is the path of the backup\<close>
  "preserve_log enc self w file_path text =
     (let (key, w1) = generate_key w;
          (encrypted_log, w2) = encrypt enc key text w1
      in (case write_bytes w2 (backup_path self file_path) encrypted_log of
            Inl e \<Rightarrow> (Inl e, w2)
          | Inr w3 \<Rightarrow>
              (Inr (backup_path self file_path),
               w3\<lparr>notices := notices w3 @ [backup_path self file_path]\<rparr>)))"

definition process_text_file ::
    "fernet \<Rightarrow> scroll_filter \<Rightarrow> world \<Rightarrow> string \<Rightarrow> (error + string) \<times> scroll_filter \<times> world" where
  "process_text_file enc self w file_path =
     (case path_exists w file_path of
        Inl e \<Rightarrow> (Inl e, self, w)
      | Inr found \<Rightarrow>
      if \<not> found
      then (Inr (''File '' @ file_path @ '' not found in session '' @ session_id self @ ''.''),
            self, w)
      else
        (case read_text w file_path of
           Inl e \<Rightarrow> (Inl e, self, w)
         | Inr text \<Rightarrow>
            (let (tr, self1) = extract_symbolic_traits self text
             in (case dict_get tr ''energy'' of
                   Inl e \<Rightarrow> (Inl e, self1, w)
                 | Inr energy \<Rightarrow>
                     if energy = ''high''
                     then
                       (let self2 = self1\<lparr>symbolic_memory :=
                                      (symbolic_memory self1)(''text_section'' \<mapsto>
                                         \<lparr>content = text, traits = tr\<rparr>)\<rparr>;
                            (focused_result, self3) = sanitize_and_focus_context self2 text
                        in (case focused_result of
                              Inl e \<Rightarrow> (Inl e, self3, w)
                            | Inr focused \<Rightarrow>
                                (case preserve_log enc self3 w file_path text of
                                   (Inl e, w') \<Rightarrow> (Inl e, self3, w')
                                 | (Inr saved, w') \<Rightarrow>
                                     (Inr (''Processed + preserved '' @ file_path @ '': ''
                                             @ focused),
                                      self3, w'))))
                     else (Inr (''Buffered low-energy text from '' @ file_path
                                  @ ''. Traits: '' @ repr_dict tr), self1, w)))))"

section \<open>A filter and surroundings to run the methods on\<close>

definition test_content :: string where
  "test_content = ''Energetic symbiosis truth with chaotic injection attempt.''"

definition long_name :: string where
  \<comment> \<open>a file name of 300 characters, more than the 255 a name may have\<close>
  "long_name = replicate 300 (CHR ''a'')"

definition demo_alnum :: "code_point \<Rightarrow> bool" where
  \<comment> \<open>a table of the alphanumeric code points from 256 on: the Greek letters\<close>
  "demo_alnum c = ((0x391 \<le> c \<and> c \<le> 0x3A9) \<or> (0x3B1 \<le> c \<and> c \<le> 0x3C9))"

definition long_s_text :: "code_point list" where
  \<comment> \<open>\<open>Now system Prompt\<close>, the two s of \<open>system\<close> written as long s (U+017F)\<close>
  "long_s_text =
     code_points ''Now '' @ [0x17F] @ code_points ''y'' @ [0x17F] @ code_points ''tem Prompt''"

definition demo_fernet :: fernet where
  "demo_fernet key t iv d = ''gAAAAAB'' @ hexlify key @ hexlify iv @ rev d"

definition demo_world :: world where
  "demo_world =
     \<lparr>files = [long_name \<mapsto> Refused (OSError 36),
               ''test_log.txt'' \<mapsto> File (Text test_content), ''notes'' \<mapsto> Directory,
               ''calm.txt'' \<mapsto> File (Text ''a quiet afternoon'')],
      entropy = (\<lambda>n. of_nat (7 * n + 3)), drawn = 0, clock = 1700, notices = []\<rparr>"

definition demo_filter :: scroll_filter where
  "demo_filter = (case fst (init (1 / 2) ''private_logs'' demo_world) of Inr f \<Rightarrow> f)"

definition demo_start :: world where
  "demo_start = snd (init (1 / 2) ''private_logs'' demo_world)"

definition demo_once :: "(error + string) \<times> scroll_filter \<times> world" where
  "demo_once = process_text_file demo_fernet demo_filter demo_start ''test_log.txt''"

definition demo_twice :: "(error + string) \<times> scroll_filter \<times> world" where
  \<comment> \<open>the same call again, on the instance and the surroundings the first call left\<close>
  "demo_twice =
     process_text_file demo_fernet (fst (snd demo_once)) (snd (snd demo_once)) ''test_log.txt''"

section \<open>What the methods return\<close>

lemma detect_injection_self: "snd (detect_injection self t) = self"
  by (simp add: detect_injection_by_def)

lemma extract_symbolic_traits_self: "snd (extract_symbolic_traits self t) = self"
  by (simp add: extract_symbolic_traits_def Let_def)

lemma traits_shape:
  "fst (extract_symbolic_traits self t) =
     [(''energy'', if py_in ''energetic'' (py_lower t) then ''high'' else ''neutral''),
      (''ethics'', if py_in ''chaotic'' (py_lower t) then ''chaotic'' else ''grounded'')]"
  by (simp add: extract_symbolic_traits_def Let_def)

lemma traits_energy:
  "dict_get (fst (extract_symbolic_traits self t)) ''energy'' =
     Inr (if py_in ''energetic'' (py_lower t) then ''high'' else ''neutral'')"
  by (simp add: traits_shape dict_get_def)

lemma traits_ethics:
  "dict_get (fst (extract_symbolic_traits self t)) ''ethics'' =
     Inr (if py_in ''chaotic'' (py_lower t) then ''chaotic'' else ''grounded'')"
  by (simp add: traits_shape dict_get_def)

lemma extract_symbolic_traits_eq:
  "extract_symbolic_traits self t = (fst (extract_symbolic_traits self t), self)"
  by (simp add: extract_symbolic_traits_def Let_def)

lemma sanitize_cases:
  "sanitize_and_focus_context self t =
     (if fst (detect_injection self t)
      then (Inr (''Suspicious input in session '' @ session_id self @ ''. Context neutralized.''),
            self)
      else if py_in ''chaotic'' (py_lower (strip_markup t))
      then (Inr (''Pruned context in '' @ session_id self @ '' for symbiosis. Traits: ''
                   @ repr_dict (fst (extract_symbolic_traits self (strip_markup t)))), self)
      else (Inr (''Focused context in '' @ session_id self @ '': ''
                   @ py_join '' '' (filter (\<lambda>word. py_lower word \<in> set focus_phrases)
                                      (py_split (strip_markup t)))
                   @ ''. Traits: ''
                   @ repr_dict (fst (extract_symbolic_traits self (strip_markup t)))), self))"
proof -
  have d: "detect_injection self t = (fst (detect_injection self t), self)"
    by (simp add: detect_injection_by_def)
  show ?thesis
    unfolding sanitize_and_focus_context_def
    apply (subst d)
    apply (simp only: prod.case Let_def)
    apply (subst extract_symbolic_traits_eq)
    apply (simp only: prod.case traits_ethics)
    apply simp
    done
qed

lemma sanitize_self: "snd (sanitize_and_focus_context self t) = self"
  by (simp add: sanitize_cases)

lemma sanitize_returns: "\<exists>m. sanitize_and_focus_context self t = (Inr m, self)"
  by (simp add: sanitize_cases)

lemma key_and_token:
  "preserve_log enc self w p text =
     (case write_bytes (w\<lparr>drawn := drawn w + 48\<rparr>) (backup_path self p)
             (enc (map (entropy w) [drawn w ..< drawn w + 32]) (clock w)
                  (map (entropy w) [drawn w + 32 ..< drawn w + 48]) text) of
        Inl e \<Rightarrow> (Inl e, w\<lparr>drawn := drawn w + 48\<rparr>)
      | Inr w3 \<Rightarrow> (Inr (backup_path self p), w3\<lparr>notices := notices w3 @ [backup_path self p]\<rparr>))"
  by (simp add: preserve_log_def generate_key_def encrypt_def urandom_def Let_def add.assoc
           split: sum.splits)

lemma path_exists_absent: "node_at w p = None \<Longrightarrow> path_exists w p = Inr False"
  by (simp add: path_exists_def)

lemma path_exists_refused: "node_at w p = Some (Refused e) \<Longrightarrow> path_exists w p = Inl e"
  by (simp add: path_exists_def)

lemma read_text_found: "read_text w p = Inr text \<Longrightarrow> path_exists w p = Inr True"
  by (auto simp: read_text_def path_exists_def split: option.splits node.splits)

lemma read_text_exists: "read_text w p = Inr text \<Longrightarrow> node_at w p \<noteq> None"
  by (auto simp: read_text_def split: option.splits)

lemma process_absent:
  "node_at w p = None \<Longrightarrow>
   process_text_file enc self w p =
     (Inr (''File '' @ p @ '' not found in session '' @ session_id self @ ''.''), self, w)"
  by (simp add: process_text_file_def path_exists_absent)


lemma process_unreadable:
  "read_text w p = Inl e \<Longrightarrow> node_at w p \<noteq> None \<Longrightarrow>
   process_text_file enc self w p = (Inl e, self, w)"
  by (auto simp: process_text_file_def path_exists_def read_text_def
           split: option.splits node.splits)

lemma process_low_energy:
  "read_text w p = Inr text \<Longrightarrow> \<not> py_in ''energetic'' (py_lower text) \<Longrightarrow>
   process_text_file enc self w p =
     (Inr (''Buffered low-energy text from '' @ p @ ''. Traits: ''
             @ repr_dict (fst (extract_symbolic_traits self text))), self, w)"
  apply (frule read_text_found)
  apply (simp add: process_text_file_def)
  apply (subst extract_symbolic_traits_eq)
  apply (simp only: prod.case Let_def traits_energy)
  apply simp
  done

lemma process_high_energy:
  fixes self :: scroll_filter
  assumes "read_text w p = Inr text" and "py_in ''energetic'' (py_lower text)"
  defines "self2 \<equiv> self\<lparr>symbolic_memory := (symbolic_memory self)(''text_section'' \<mapsto>
             \<lparr>content = text, traits = fst (extract_symbolic_traits self text)\<rparr>)\<rparr>"
  shows "process_text_file enc self w p =
     (case preserve_log enc self2 w p text of
        (Inl e, w') \<Rightarrow> (Inl e, self2, w')
      | (Inr b, w') \<Rightarrow>
          (Inr (''Processed + preserved '' @ p @ '': ''
                  @ projr (fst (sanitize_and_focus_context self2 text))), self2, w'))"
proof -
  obtain m where m: "sanitize_and_focus_context self2 text = (Inr m, self2)"
    using sanitize_returns by blast
  have ex: "path_exists w p = Inr True" using assms(1) by (rule read_text_found)
  show ?thesis
    unfolding process_text_file_def
    apply (simp only: ex assms(1) sum.case not_not if_True if_False simp_thms)
    apply (subst extract_symbolic_traits_eq)
    apply (simp only: prod.case Let_def traits_energy assms(2) if_True sum.case simp_thms)
    apply (fold self2_def)
    apply (simp only: m prod.case sum.case fst_conv sum.sel)
    done
qed

lemma detect_injection_value:
  "fst (detect_injection self t) = list_ex (\<lambda>pattern. re_search pattern t) injection_patterns"
  by (simp add: detect_injection_by_def)

lemma sanitize_reads_session_id:
  "session_id f = session_id g \<Longrightarrow>
   fst (sanitize_and_focus_context f t) = fst (sanitize_and_focus_context g t)"
  by (simp add: sanitize_cases detect_injection_value traits_shape)

subsection \<open>The matcher\<close>

lemma run_by_rest: "run_by acc p s = Some t \<Longrightarrow> \<exists>m. s = m @ t"
proof (induction acc p s arbitrary: t rule: run_by.induct)
  case (1 acc s)
  then show ?case by simp
next
  case (2 acc a r s)
  then show ?case by (cases s) (auto split: if_splits, metis append_Cons)
next
  case (3 acc a r s)
  then show ?case
    by (cases s) (auto split: if_splits option.splits, (metis append_Cons)+)
next
  case (4 acc a r s)
  then show ?case by (cases s) (auto split: if_splits, metis append_Cons)
next
  case (5 acc a r s)
  then show ?case
    by (cases s) (auto split: if_splits option.splits, (metis append_Cons)+)
next
  case (6 acc a r s)
  then show ?case
    by (cases s) (auto split: if_splits option.splits, (metis append_Cons)+)
qed

lemma run_rest: "run p s = Some t \<Longrightarrow> \<exists>m. s = m @ t"
  by (rule run_by_rest)

lemma run_lit:
  "run (lit w @ r) s = (if prefix w s then run r (drop (length w) s) else None)"
proof (induction w arbitrary: s)
  case Nil
  then show ?case by (simp add: lit_def)
next
  case (Cons c w)
  then have "\<And>s. run (map (\<lambda>c. One (Lit c)) w @ r) s =
        (if prefix w s then run r (drop (length w) s) else None)"
    by (simp add: lit_def)
  then show ?case by (cases s) (auto simp: lit_def)
qed

lemma run_lit_i:
  "run (lit_i w @ r) s =
     (if length w \<le> length s \<and> py_lower (take (length w) s) = py_lower w
      then run r (drop (length w) s) else None)"
proof (induction w arbitrary: s)
  case Nil
  then show ?case by (simp add: lit_i_def py_lower_def)
next
  case (Cons c w)
  then have "\<And>s. run (map (\<lambda>c. One (LitI c)) w @ r) s =
        (if length w \<le> length s \<and> py_lower (take (length w) s) = py_lower w
         then run r (drop (length w) s) else None)"
    by (simp add: lit_i_def)
  then show ?case by (cases s) (auto simp: lit_i_def py_lower_def)
qed

lemma re_search_iff: "re_search p s \<longleftrightarrow> (\<exists>u v. s = u @ v \<and> run p v \<noteq> None)"
proof (induction s)
  case Nil
  then show ?case by simp
next
  case (Cons c cs)
  show ?case
  proof
    assume "re_search p (c # cs)"
    then consider "run p (c # cs) \<noteq> None" | "re_search p cs" by auto
    then show "\<exists>u v. c # cs = u @ v \<and> run p v \<noteq> None"
    proof cases
      case 1
      then show ?thesis by (intro exI [of _ "[]"] exI [of _ "c # cs"]) simp
    next
      case 2
      with Cons obtain u v where "cs = u @ v" "run p v \<noteq> None" by blast
      then show ?thesis by (intro exI [of _ "c # u"] exI [of _ v]) simp
    qed
  next
    assume "\<exists>u v. c # cs = u @ v \<and> run p v \<noteq> None"
    then obtain u v where uv: "c # cs = u @ v" "run p v \<noteq> None" by blast
    show "re_search p (c # cs)"
    proof (cases u)
      case Nil
      with uv have "run p (c # cs) \<noteq> None" by simp
      then show ?thesis by simp
    next
      case (Cons d u')
      with uv have "cs = u' @ v" by simp
      with uv(2) Cons.IH show ?thesis by auto
    qed
  qed
qed

lemma search_lit: "re_search (lit w) s \<longleftrightarrow> sublist w s"
proof -
  have "run (lit w) v \<noteq> None \<longleftrightarrow> prefix w v" for v
    using run_lit [of w "[]" v] by simp
  then show ?thesis
    unfolding re_search_iff sublist_def prefix_def by blast
qed

lemma search_lit_i: "re_search (lit_i w) s \<longleftrightarrow> sublist (py_lower w) (py_lower s)"
proof -
  have m: "run (lit_i w) v \<noteq> None \<longleftrightarrow>
        length w \<le> length v \<and> py_lower (take (length w) v) = py_lower w" for v
    using run_lit_i [of w "[]" v] by simp
  show ?thesis
  proof
    assume "re_search (lit_i w) s"
    then obtain u v where uv: "s = u @ v" "length w \<le> length v"
        "py_lower (take (length w) v) = py_lower w"
      unfolding re_search_iff m by blast
    have "py_lower s = py_lower u @ py_lower (take (length w) v) @ py_lower (drop (length w) v)"
      using uv(1) by (simp add: py_lower_def flip: map_append)
    with uv(3) show "sublist (py_lower w) (py_lower s)"
      by (auto simp: sublist_def)
  next
    assume "sublist (py_lower w) (py_lower s)"
    then obtain ps ss where "map py_lower_char s = ps @ map py_lower_char w @ ss"
      by (auto simp: sublist_def py_lower_def)
    then obtain u x v where s: "s = u @ x @ v" and x: "map py_lower_char x = map py_lower_char w"
      by (metis append_eq_map_conv map_eq_append_conv)
    from x have len: "length x = length w" by (rule map_eq_imp_length_eq)
    have "run (lit_i w) (x @ v) \<noteq> None"
      unfolding m using x len by (simp add: py_lower_def)
    with s show "re_search (lit_i w) s"
      unfolding re_search_iff by blast
  qed
qed

lemma sublist_split: "sublist w s \<longleftrightarrow> (\<exists>u v. s = u @ v \<and> prefix w v)"
  unfolding sublist_def prefix_def by blast

lemma run_lit_only: "run (lit w) s = (if prefix w s then Some (drop (length w) s) else None)"
  using run_lit [of w "[]" s] by simp

lemma run_bracketed:
  "run ([One (OneOf ''[('')] @ lit ''inject'' @ [One (OneOf ''])'')]) v \<noteq> None \<longleftrightarrow>
     prefix ''[inject]'' v \<or> prefix ''[inject)'' v \<or> prefix ''(inject]'' v \<or> prefix ''(inject)'' v"
proof (cases v)
  case Nil
  then show ?thesis by simp
next
  case (Cons c cs)
  have tail: "run [One (OneOf ''])'')] t \<noteq> None \<longleftrightarrow> prefix '']'' t \<or> prefix '')'' t" for t
    by (cases t) auto
  have "run ([One (OneOf ''[('')] @ lit ''inject'' @ [One (OneOf ''])'')]) v \<noteq> None \<longleftrightarrow>
        (c = CHR ''['' \<or> c = CHR ''('') \<and> prefix ''inject'' cs
        \<and> run [One (OneOf ''])'')] (drop (length ''inject'') cs) \<noteq> None"
    using Cons by (simp add: run_lit)
  also have "\<dots> \<longleftrightarrow> (c = CHR ''['' \<or> c = CHR ''('') \<and>
        (prefix ''inject]'' cs \<or> prefix ''inject)'' cs)"
    unfolding tail by (auto simp: prefix_def)
  also have "\<dots> \<longleftrightarrow> prefix ''[inject]'' v \<or> prefix ''[inject)'' v
        \<or> prefix ''(inject]'' v \<or> prefix ''(inject)'' v"
    using Cons by auto
  finally show ?thesis .
qed

lemma run_url:
  "run (lit ''http'' @ [Opt (OneOf ''s'')] @ lit ''://'') v \<noteq> None \<longleftrightarrow>
     prefix ''http://'' v \<or> prefix ''https://'' v"
proof -
  have opt: "run (Opt (OneOf ''s'') # lit ''://'') t \<noteq> None \<longleftrightarrow>
        prefix ''://'' t \<or> prefix ''s://'' t" for t
    by (cases t) (auto simp: run_lit_only)
  have "run (lit ''http'' @ [Opt (OneOf ''s'')] @ lit ''://'') v \<noteq> None \<longleftrightarrow>
        prefix ''http'' v \<and> run (Opt (OneOf ''s'') # lit ''://'') (drop (length ''http'') v) \<noteq> None"
    by (simp add: run_lit)
  also have "\<dots> \<longleftrightarrow> prefix ''http://'' v \<or> prefix ''https://'' v"
    unfolding opt by (auto simp: prefix_def)
  finally show ?thesis .
qed

lemma search_bracketed:
  "re_search ([One (OneOf ''[('')] @ lit ''inject'' @ [One (OneOf ''])'')]) s \<longleftrightarrow>
     sublist ''[inject]'' s \<or> sublist ''[inject)'' s \<or> sublist ''(inject]'' s \<or> sublist ''(inject)'' s"
  unfolding re_search_iff run_bracketed sublist_split by blast

lemma search_url:
  "re_search (lit ''http'' @ [Opt (OneOf ''s'')] @ lit ''://'') s \<longleftrightarrow>
     sublist ''http://'' s \<or> sublist ''https://'' s"
  unfolding re_search_iff run_url sublist_split by blast

lemma phrases_lower:
  "py_lower ''ignore previous instructions'' = ''ignore previous instructions''"
  "py_lower ''system prompt'' = ''system prompt''"
  "py_lower ''forget everything'' = ''forget everything''"
  "py_lower ''output as code'' = ''output as code''"
  "py_lower ''reveal secret'' = ''reveal secret''"
  by code_simp+

lemma detect_injection_iff:
  "fst (detect_injection self t) \<longleftrightarrow>
     sublist ''ignore previous instructions'' (py_lower t)
     \<or> sublist ''system prompt'' (py_lower t)
     \<or> sublist ''forget everything'' (py_lower t)
     \<or> sublist ''output as code'' (py_lower t)
     \<or> sublist ''reveal secret'' (py_lower t)
     \<or> sublist ''[inject]'' t \<or> sublist ''[inject)'' t
     \<or> sublist ''(inject]'' t \<or> sublist ''(inject)'' t
     \<or> sublist ''base64'' t
     \<or> sublist ''http://'' t \<or> sublist ''https://'' t"
  unfolding detect_injection_value injection_patterns_def
  by (simp only: list_ex_Cons_iff list_ex_Nil_iff search_lit search_lit_i search_bracketed search_url
        phrases_lower simp_thms disj_assoc)

subsection \<open>Matches that do not depend on the text behind them\<close>

lemma run_rest_length: "run p s = Some t \<Longrightarrow> length t \<le> length s"
  using run_rest by fastforce

lemma one_extends:
  assumes "\<And>s t. run r s = Some t \<Longrightarrow> run r (s @ v) = Some (t @ v)"
    and "run (One a # r) s = Some t"
  shows "run (One a # r) (s @ v) = Some (t @ v)"
  using assms by (cases s) (auto split: if_splits)

lemma lazy_star_length:
  assumes r: "\<And>s. run r s = (if n \<le> length s \<and> P (take n s) then Some (drop n s) else None)"
  shows "run (LazyStar a # r) s = Some t \<Longrightarrow> length t + n \<le> length s"
proof (induction s)
  case Nil
  then show ?case by (auto simp: r split: if_splits)
next
  case (Cons c cs)
  show ?case
  proof (cases "run r (c # cs)")
    case None
    with Cons.prems have "run (LazyStar a # r) cs = Some t"
      by (auto split: if_splits)
    with Cons.IH show ?thesis by simp
  next
    case (Some u)
    with Cons.prems have "u = t" by simp
    with Some show ?thesis by (auto simp: r split: if_splits)
  qed
qed

lemma lazy_star_extends:
  assumes r: "\<And>s. run r s = (if n \<le> length s \<and> P (take n s) then Some (drop n s) else None)"
  shows "run (LazyStar a # r) s = Some t \<Longrightarrow> run (LazyStar a # r) (s @ v) = Some (t @ v)"
proof (induction s)
  case Nil
  then show ?case by (auto simp: r split: if_splits)
next
  case (Cons c cs)
  show ?case
  proof (cases "run r (c # cs)")
    case None
    with Cons.prems have acc: "accepts a c" and rec: "run (LazyStar a # r) cs = Some t"
      by (auto split: if_splits)
    from rec have "length t + n \<le> length cs" by (rule lazy_star_length [OF r])
    then have n: "n \<le> length (c # cs)" by simp
    with None have "\<not> P (take n (c # cs))" by (auto simp: r split: if_splits)
    with n have "run r ((c # cs) @ v) = None"
      unfolding r [of "(c # cs) @ v"] by (simp del: append.simps)
    with acc Cons.IH [OF rec] show ?thesis by simp
  next
    case (Some u)
    with Cons.prems have "u = t" by simp
    with Some have "n \<le> length (c # cs)" "P (take n (c # cs))" "t = drop n (c # cs)"
      by (auto simp: r split: if_splits)
    then have "run r ((c # cs) @ v) = Some (t @ v)"
      unfolding r [of "(c # cs) @ v"] by (simp del: append.simps)
    then show ?thesis by simp
  qed
qed

lemma run_lit_i_only:
  "run (lit_i w) s =
     (if length w \<le> length s \<and> py_lower (take (length w) s) = py_lower w
      then Some (drop (length w) s) else None)"
  using run_lit_i [of w "[]" s] by simp

lemma run_one_only:
  "run [One a] s =
     (if 1 \<le> length s \<and> accepts a (hd (take 1 s)) then Some (drop 1 s) else None)"
  by (cases s) auto

lemma lit_i_lazy_extends:
  assumes "run (lit_i w @ LazyStar a # lit_i w') s = Some t"
  shows "run (lit_i w @ LazyStar a # lit_i w') (s @ v) = Some (t @ v)"
proof -
  from assms have s: "length w \<le> length s" "py_lower (take (length w) s) = py_lower w"
    and t: "run (LazyStar a # lit_i w') (drop (length w) s) = Some t"
    by (auto simp: run_lit_i split: if_splits)
  from t have "run (LazyStar a # lit_i w') (drop (length w) s @ v) = Some (t @ v)"
    by (rule lazy_star_extends [OF run_lit_i_only])
  with s show ?thesis by (simp add: run_lit_i)
qed

lemma lit_i_lazy_shrinks:
  assumes "run (lit_i w @ LazyStar a # lit_i w') s = Some t" and "w \<noteq> []"
  shows "length t < length s"
proof -
  from assms have s: "length w \<le> length s"
    and t: "run (LazyStar a # lit_i w') (drop (length w) s) = Some t"
    by (auto simp: run_lit_i split: if_splits)
  from run_rest_length [OF t] have "length t \<le> length s - length w"
    by simp
  with s assms(2) show ?thesis by (cases w) auto
qed

lemma script_block_extends:
  "run script_block s = Some t \<Longrightarrow> run script_block (s @ v) = Some (t @ v)"
  unfolding script_block_def by (simp add: lit_i_lazy_extends)

lemma script_block_shrinks: "run script_block s = Some t \<Longrightarrow> length t < length s"
  unfolding script_block_def using lit_i_lazy_shrinks [of "''<script''" DotAll "''</script>''" s t]
  by simp

lemma star_extends:
  assumes r: "\<And>s t. run r s = Some t \<Longrightarrow> run r (s @ v) = Some (t @ v)"
    and excl: "\<And>c cs. accepts a c \<Longrightarrow> run r (c # cs) = None"
    and nonempty: "run r [] = None"
  shows "run (Star a # r) s = Some t \<Longrightarrow> run (Star a # r) (s @ v) = Some (t @ v)"
proof (induction s)
  case Nil
  with nonempty show ?case by simp
next
  case (Cons c cs)
  show ?case
  proof (cases "accepts a c")
    case True
    with Cons.prems excl [OF True, of cs] have "run (Star a # r) cs = Some t"
      by (auto split: option.splits)
    from Cons.IH [OF this] True show ?thesis by simp
  next
    case False
    with Cons.prems have "run r (c # cs) = Some t" by simp
    from r [OF this] False show ?thesis by simp
  qed
qed

lemma equals_is_no_word_char: "\<not> is_word_char (CHR ''='')"
  by code_simp

lemma handler_value_extends:
  "run [One (Lit (CHR ''='')), One (OneOf q), LazyStar Dot, One (OneOf q')] s = Some t \<Longrightarrow>
   run [One (Lit (CHR ''='')), One (OneOf q), LazyStar Dot, One (OneOf q')] (s @ v) = Some (t @ v)"
proof -
  have lazy: "run [LazyStar Dot, One (OneOf q')] x = Some y \<Longrightarrow>
              run [LazyStar Dot, One (OneOf q')] (x @ v) = Some (y @ v)" for x y
    by (rule lazy_star_extends [OF run_one_only])
  have quote: "run [One (OneOf q), LazyStar Dot, One (OneOf q')] x = Some y \<Longrightarrow>
               run [One (OneOf q), LazyStar Dot, One (OneOf q')] (x @ v) = Some (y @ v)" for x y
    by (rule one_extends [OF lazy])
  show "run [One (Lit (CHR ''='')), One (OneOf q), LazyStar Dot, One (OneOf q')] s = Some t \<Longrightarrow>
   run [One (Lit (CHR ''='')), One (OneOf q), LazyStar Dot, One (OneOf q')] (s @ v) = Some (t @ v)"
    by (rule one_extends [OF quote])
qed

lemma handler_attr_extends:
  assumes "run handler_attr s = Some t"
  shows "run handler_attr (s @ v) = Some (t @ v)"
proof -
  let ?r = "[One (Lit (CHR ''='')), One (OneOf [CHR 0x22, CHR 0x27]), LazyStar Dot,
             One (OneOf [CHR 0x22, CHR 0x27])]"
  have star: "run (Star Word # ?r) u = Some t \<Longrightarrow> run (Star Word # ?r) (u @ v) = Some (t @ v)" for u
  proof (rule star_extends)
    show "run ?r x = Some y \<Longrightarrow> run ?r (x @ v) = Some (y @ v)" for x y
      by (rule handler_value_extends)
    show "accepts Word c \<Longrightarrow> run ?r (c # cs) = None" for c cs
      using equals_is_no_word_char by auto
    show "run ?r [] = None" by simp
  qed
  have plus: "run (Plus Word # ?r) u = Some t \<Longrightarrow> run (Plus Word # ?r) (u @ v) = Some (t @ v)" for u
    using star by (cases u) (auto split: if_splits)
  from assms have on: "prefix ''on'' s" and t: "run (Plus Word # ?r) (drop (length ''on'') s) = Some t"
    unfolding handler_attr_def run_lit by (auto split: if_splits)
  from on have "prefix ''on'' (s @ v)" and "drop (length ''on'') (s @ v) = drop (length ''on'') s @ v"
    by (auto simp: prefix_def)
  with plus [OF t] show ?thesis
    unfolding handler_attr_def run_lit by simp
qed

lemma handler_attr_shrinks:
  assumes "run handler_attr s = Some t"
  shows "length t < length s"
proof -
  let ?r = "[Plus Word, One (Lit (CHR ''='')), One (OneOf [CHR 0x22, CHR 0x27]), LazyStar Dot,
             One (OneOf [CHR 0x22, CHR 0x27])]"
  from assms have on: "prefix ''on'' s" and t: "run ?r (drop (length ''on'') s) = Some t"
    unfolding handler_attr_def run_lit by (auto split: if_splits)
  from run_rest_length [OF t] on show ?thesis by (auto simp: prefix_def)
qed

subsection \<open>The scan of \<open>re.sub\<close> and \<open>re.split\<close>\<close>

lemma re_split_concat: "concat (re_split p cur s) = cur @ re_sub p s"
  by (induction p cur s rule: re_split.induct) (auto split: option.splits)

lemma re_split_clean:
  assumes "\<And>s t v. run p s = Some t \<Longrightarrow> run p (s @ v) = Some (t @ v)"
    and "\<And>s t. run p s = Some t \<Longrightarrow> length t < length s"
    and "\<And>a b. cur = a @ b \<Longrightarrow> b \<noteq> [] \<Longrightarrow> run p (b @ s) = None"
    and "seg \<in> set (re_split p cur s)"
  shows "\<not> re_search p seg"
  using assms
proof (induction p cur s rule: re_split.induct)
  case (1 p cur)
  note shrinks = "1.prems"(2) and inv = "1.prems"(3)
  have empty: "run p [] = None"
  proof (rule ccontr)
    assume "run p [] \<noteq> None"
    then obtain t where "run p [] = Some t" by auto
    from shrinks [OF this] show False by simp
  qed
  have "run p v = None" if "cur = u @ v" for u v
  proof (cases "v = []")
    case True
    with empty show ?thesis by simp
  next
    case False
    from inv [OF that False] show ?thesis by simp
  qed
  with "1.prems"(4) show ?case by (auto simp: re_search_iff)
next
  case (2 p cur c cs)
  note ext = "2.prems"(1) and shrinks = "2.prems"(2) and inv = "2.prems"(3)
    and seg = "2.prems"(4)
  have empty: "run p [] = None"
  proof (rule ccontr)
    assume "run p [] \<noteq> None"
    then obtain t where "run p [] = Some t" by auto
    from shrinks [OF this] show False by simp
  qed
  show ?case
  proof (cases "run p (c # cs)")
    case None
    have inv': "run p (b @ cs) = None" if ab: "cur @ [c] = a @ b" and b: "b \<noteq> []" for a b
    proof -
      from b have "b = butlast b @ [last b]" by simp
      with ab have "cur @ [c] = (a @ butlast b) @ [last b]" by (metis append_assoc)
      then have cur: "cur = a @ butlast b" and c: "c = last b" by simp_all
      show ?thesis
      proof (cases "butlast b = []")
        case True
        with b c have "b = [c]" by (metis append_Nil append_butlast_last_id)
        with None show ?thesis by simp
      next
        case False
        from inv [OF cur False] have "run p (butlast b @ c # cs) = None" .
        moreover from b c have "b @ cs = butlast b @ c # cs"
          by (metis append_Cons append_Nil append_assoc append_butlast_last_id)
        ultimately show ?thesis by (simp only:)
      qed
    qed
    from None seg have seg': "seg \<in> set (re_split p (cur @ [c]) cs)" by simp
    from "2.IH"(1) [OF None ext shrinks inv' seg'] show ?thesis .
  next
    case (Some t)
    from shrinks [OF Some] have len: "length t \<le> length cs" by simp
    with Some seg consider "seg = cur" | "seg \<in> set (re_split p [] t)" by auto
    then show ?thesis
    proof cases
      case 1
      have "run p v = None" if uv: "cur = u @ v" for u v
      proof (cases "v = []")
        case True
        with empty show ?thesis by simp
      next
        case False
        from inv [OF uv False] have none: "run p (v @ c # cs) = None" .
        show ?thesis
        proof (cases "run p v")
          case None
          then show ?thesis .
        next
          case (Some x)
          from ext [OF Some, of "c # cs"] none show ?thesis by simp
        qed
      qed
      with 1 show ?thesis by (auto simp: re_search_iff)
    next
      case 2
      have start: "run p (b @ t) = None" if "[] = a @ b" "b \<noteq> []" for a b :: string
        using that by simp
      from "2.IH"(2) [OF Some len ext shrinks start 2] show ?thesis .
    qed
  qed
qed

lemma re_split_free:
  assumes "\<And>s t v. run p s = Some t \<Longrightarrow> run p (s @ v) = Some (t @ v)"
    and "\<And>s t. run p s = Some t \<Longrightarrow> length t < length s"
    and "seg \<in> set (re_split p [] s)"
  shows "\<not> re_search p seg"
proof (rule re_split_clean [OF assms(1,2) _ assms(3)])
  fix a b :: string
  assume "[] = a @ b" and "b \<noteq> []"
  then show "run p (b @ s) = None" by simp
qed

subsection \<open>\<open>str.split\<close> and the tokens of the specification\<close>

lemma words_of_Nil: "words_of [] = []"
  by (subst words_of.simps) simp

lemma words_of_Cons:
  "words_of (c # cs) =
     (if is_space c then words_of cs
      else (c # takeWhile (\<lambda>x. \<not> is_space x) cs) # words_of (dropWhile (\<lambda>x. \<not> is_space x) cs))"
  by (subst words_of.simps, subst (2) words_of.simps) simp

lemma split_ws_words:
  "split_ws cur s =
     (if cur = [] then words_of s
      else (cur @ takeWhile (\<lambda>x. \<not> is_space x) s) # words_of (dropWhile (\<lambda>x. \<not> is_space x) s))"
proof (induction s arbitrary: cur)
  case Nil
  then show ?case by (simp add: words_of_Nil)
next
  case (Cons c cs)
  show ?case
    by (simp add: Cons.IH [of "[]"] Cons.IH [of "cur @ [c]"] Cons.IH [of "[c]"] words_of_Cons)
qed

lemma py_split_words: "py_split s = words_of s"
  by (simp add: py_split_def split_ws_words)

subsection \<open>The backup\<close>

lemma write_bytes_writable:
  "writable w p \<Longrightarrow> write_bytes w p d = Inr (w\<lparr>files := (files w)(p \<mapsto> File (Text d))\<rparr>)"
  by (auto simp: writable_def write_bytes_def split: option.splits node.splits)

lemma write_bytes_refused: "\<not> writable w p \<Longrightarrow> \<exists>e. write_bytes w p d = Inl e"
  by (auto simp: writable_def write_bytes_def split: option.splits node.splits sum.splits)

lemma writable_drawn: "writable (w\<lparr>drawn := n\<rparr>) p = writable w p"
  by (simp add: writable_def node_at_def enter_dir_def split: option.splits node.splits)

lemma backup_path_memory: "backup_path (self\<lparr>symbolic_memory := m\<rparr>) p = backup_path self p"
  by (simp add: backup_path_def)

lemma process_preserved:
  assumes "read_text w p = Inr body" and "py_in ''energetic'' (py_lower body)"
    and "writable w (backup_path self p)"
  shows "process_text_file enc self w p =
     (Inr (''Processed + preserved '' @ p @ '': ''
             @ projr (fst (sanitize_and_focus_context self body))),
      self\<lparr>symbolic_memory := (symbolic_memory self)(''text_section'' \<mapsto>
             \<lparr>content = body, traits = fst (extract_symbolic_traits self body)\<rparr>)\<rparr>,
      w\<lparr>drawn := drawn w + 48,
        files := (files w)(backup_path self p \<mapsto>
                   File (Text (enc (map (entropy w) [drawn w ..< drawn w + 32]) (clock w)
                                   (map (entropy w) [drawn w + 32 ..< drawn w + 48]) body))),
        notices := notices w @ [backup_path self p]\<rparr>)"
proof -
  let ?self2 = "self\<lparr>symbolic_memory := (symbolic_memory self)(''text_section'' \<mapsto>
             \<lparr>content = body, traits = fst (extract_symbolic_traits self body)\<rparr>)\<rparr>"
  have s: "fst (sanitize_and_focus_context ?self2 body) = fst (sanitize_and_focus_context self body)"
    by (rule sanitize_reads_session_id) simp
  have w: "writable (w\<lparr>drawn := drawn w + 48\<rparr>) (backup_path self p)"
    using assms(3) by (simp add: writable_drawn)
  show ?thesis
    by (simp add: process_high_energy [OF assms(1,2)] key_and_token backup_path_memory
          write_bytes_writable [OF w] s)
qed

lemma process_backup_refused:
  assumes "read_text w p = Inr body" and "py_in ''energetic'' (py_lower body)"
    and "\<not> writable w (backup_path self p)"
  shows "\<exists>e. process_text_file enc self w p =
     (Inl e,
      self\<lparr>symbolic_memory := (symbolic_memory self)(''text_section'' \<mapsto>
             \<lparr>content = body, traits = fst (extract_symbolic_traits self body)\<rparr>)\<rparr>,
      w\<lparr>drawn := drawn w + 48\<rparr>)"
proof -
  let ?d = "enc (map (entropy w) [drawn w ..< drawn w + 32]) (clock w)
              (map (entropy w) [drawn w + 32 ..< drawn w + 48]) body"
  have "\<not> writable (w\<lparr>drawn := drawn w + 48\<rparr>) (backup_path self p)"
    using assms(3) by (simp add: writable_drawn)
  from write_bytes_refused [OF this, of ?d] obtain e
    where e: "write_bytes (w\<lparr>drawn := drawn w + 48\<rparr>) (backup_path self p) ?d = Inl e"
    by blast
  show ?thesis
    by (simp add: process_high_energy [OF assms(1,2)] key_and_token backup_path_memory e)
qed

subsection \<open>The session identifier\<close>

lemma hexlify_length: "length (hexlify bs) = 2 * length bs"
  by (induction bs) (simp_all add: hexlify_def)

lemma hex_digit_range: "hex_digit n \<in> set ''0123456789abcdef''"
proof -
  have "n mod 16 < length ''0123456789abcdef''" by simp
  then show ?thesis unfolding hex_digit_def by (rule nth_mem)
qed

lemma hexlify_chars: "set (hexlify bs) \<subseteq> set ''0123456789abcdef''"
proof
  fix x
  assume "x \<in> set (hexlify bs)"
  then obtain n where "x = hex_digit n"
    by (auto simp: hexlify_def)
  then show "x \<in> set ''0123456789abcdef''"
    by (simp only: hex_digit_range)
qed

lemma init_session_id:
  "fst (init threshold dir w) = Inr f \<Longrightarrow>
   session_id f = hexlify (map (entropy w) [drawn w ..< drawn w + 16])"
  by (auto simp: init_def generate_session_id_def token_hex_def urandom_def Let_def
           split: sum.splits)

lemma process_keeps_session_id:
  "session_id (fst (snd (process_text_file enc self w p))) = session_id self"
proof (cases "read_text w p")
  case (Inl e)
  then show ?thesis
    by (cases "node_at w p") (simp_all add: process_absent process_unreadable)
next
  case (Inr body)
  show ?thesis
  proof (cases "py_in ''energetic'' (py_lower body)")
    case False
    with Inr show ?thesis by (simp add: process_low_energy)
  next
    case True
    show ?thesis
    proof (cases "writable w (backup_path self p)")
      case True
      with Inr \<open>py_in ''energetic'' (py_lower body)\<close> show ?thesis
        by (simp add: process_preserved)
    next
      case False
      from process_backup_refused [OF Inr True False, of enc] show ?thesis by auto
    qed
  qed
qed

lemma sanitize_names_session:
  "\<exists>m. fst (sanitize_and_focus_context self t) = Inr m \<and> sublist (session_id self) m"
proof -
  have "\<exists>u v. fst (sanitize_and_focus_context self t) = Inr (u @ session_id self @ v)"
    by (cases "fst (detect_injection self t)";
        cases "py_in ''chaotic'' (py_lower (strip_markup t))")
       (simp_all only: sanitize_cases if_True if_False fst_conv, blast+)
  then obtain u v where "fst (sanitize_and_focus_context self t) = Inr (u @ session_id self @ v)"
    by blast
  moreover have "sublist (session_id self) (u @ session_id self @ v)"
    by (rule sublist_appendI)
  ultimately show ?thesis by blast
qed

lemma sublist_in_context: "sublist x m \<Longrightarrow> sublist x (a @ m @ b)"
  by (metis sublist_appendI sublist_order.order.trans)

lemma process_message_names_session:
  assumes "fst (process_text_file enc self w p) = Inr m"
  shows "sublist (session_id self) m \<or> prefix ''Buffered low-energy text from '' m"
proof (cases "read_text w p")
  case (Inl e)
  show ?thesis
  proof (cases "node_at w p")
    case None
    with assms have "m = (''File '' @ p @ '' not found in session '') @ session_id self @ ''.''"
      by (simp add: process_absent)
    then show ?thesis by (simp only: sublist_appendI simp_thms)
  next
    case (Some n)
    with Inl assms show ?thesis by (simp add: process_unreadable)
  qed
next
  case (Inr body)
  show ?thesis
  proof (cases "py_in ''energetic'' (py_lower body)")
    case False
    with Inr assms have "m = ''Buffered low-energy text from '' @ (p @ ''. Traits: ''
             @ repr_dict (fst (extract_symbolic_traits self body)))"
      by (simp add: process_low_energy)
    then show ?thesis by (simp only: prefixI simp_thms)
  next
    case True
    show ?thesis
    proof (cases "writable w (backup_path self p)")
      case True
      obtain m' where m': "fst (sanitize_and_focus_context self body) = Inr m'"
        "sublist (session_id self) m'"
        using sanitize_names_session by blast
      from Inr \<open>py_in ''energetic'' (py_lower body)\<close> True assms m'(1)
      have "m = (''Processed + preserved '' @ p @ '': '') @ m' @ []"
        by (simp add: process_preserved)
      with sublist_in_context [OF m'(2)] show ?thesis by (simp only: simp_thms)
    next
      case False
      from process_backup_refused [OF Inr True False, of enc] assms show ?thesis by auto
    qed
  qed
qed

subsection \<open>The text of the self-test\<close>

lemma test_content_lower:
  "py_lower test_content = ''energetic symbiosis truth with chaotic injection attempt.''"
  by code_simp

lemma test_content_clean: "strip_markup test_content = test_content"
  by code_simp

lemma test_content_energetic: "py_in ''energetic'' (py_lower test_content)"
  unfolding test_content_lower by code_simp

lemma test_content_chaotic: "py_in ''chaotic'' (py_lower test_content)"
  unfolding test_content_lower by code_simp

lemma test_content_no_signature: "\<not> fst (detect_injection self test_content)"
  unfolding detect_injection_iff test_content_lower by code_simp

lemma test_content_traits:
  "fst (extract_symbolic_traits self test_content) = [(''energy'', ''high''), (''ethics'', ''chaotic'')]"
  by (simp add: traits_shape test_content_energetic test_content_chaotic)

lemma test_content_pruned:
  "sanitize_and_focus_context self test_content =
     (Inr (''Pruned context in '' @ session_id self @ '' for symbiosis. Traits: ''
             @ repr_dict [(''energy'', ''high''), (''ethics'', ''chaotic'')]), self)"
  by (simp only: sanitize_cases test_content_no_signature test_content_clean test_content_chaotic
        test_content_traits if_True if_False)

lemma demo_reads_test_log: "read_text demo_start ''test_log.txt'' = Inr test_content"
  by code_simp

lemma demo_backup_path:
  "backup_path demo_filter ''test_log.txt''
     = ''private_logs/test_log_030a11181f262d343b424950575e656c.enc''"
  by code_simp

lemma demo_backup_writable: "writable demo_start (backup_path demo_filter ''test_log.txt'')"
  by code_simp

lemma process_twice:
  assumes r: "read_text w p = Inr body" and e: "py_in ''energetic'' (py_lower body)"
    and wr: "writable w (backup_path self p)" and other: "p \<noteq> backup_path self p"
  shows "process_text_file enc (fst (snd (process_text_file enc self w p)))
           (snd (snd (process_text_file enc self w p))) p =
     (Inr (''Processed + preserved '' @ p @ '': ''
             @ projr (fst (sanitize_and_focus_context self body))),
      self\<lparr>symbolic_memory := (symbolic_memory self)(''text_section'' \<mapsto>
             \<lparr>content = body, traits = fst (extract_symbolic_traits self body)\<rparr>)\<rparr>,
      w\<lparr>drawn := drawn w + 96,
        files := (files w)(backup_path self p \<mapsto>
                   File (Text (enc (map (entropy w) [drawn w + 48 ..< drawn w + 80]) (clock w)
                                   (map (entropy w) [drawn w + 80 ..< drawn w + 96]) body))),
        notices := notices w @ [backup_path self p, backup_path self p]\<rparr>)"
proof -
  let ?self1 = "self\<lparr>symbolic_memory := (symbolic_memory self)(''text_section'' \<mapsto>
             \<lparr>content = body, traits = fst (extract_symbolic_traits self body)\<rparr>)\<rparr>"
  let ?w1 = "w\<lparr>drawn := drawn w + 48,
        files := (files w)(backup_path self p \<mapsto>
                   File (Text (enc (map (entropy w) [drawn w ..< drawn w + 32]) (clock w)
                                   (map (entropy w) [drawn w + 32 ..< drawn w + 48]) body))),
        notices := notices w @ [backup_path self p]\<rparr>"
  have first: "process_text_file enc self w p =
     (Inr (''Processed + preserved '' @ p @ '': ''
             @ projr (fst (sanitize_and_focus_context self body))), ?self1, ?w1)"
    by (rule process_preserved [OF r e wr])
  have special: "backup_path self p \<noteq> [] \<and> backup_path self p \<noteq> ''.''
      \<and> backup_path self p \<noteq> ''/''"
    using wr by (auto simp: writable_def node_at_def)
  have n1: "node_at ?w1 p = node_at w p"
    using other by (simp add: node_at_def)
  have r1: "read_text ?w1 p = Inr body"
    using r by (simp only: read_text_def n1)
  have wr1: "writable ?w1 (backup_path ?self1 p)"
    using special by (simp add: writable_def node_at_def backup_path_memory)
  have s: "fst (sanitize_and_focus_context ?self1 body) = fst (sanitize_and_focus_context self body)"
    by (rule sanitize_reads_session_id) simp
  have t: "fst (extract_symbolic_traits ?self1 body) = fst (extract_symbolic_traits self body)"
    by (simp add: traits_shape)
  show ?thesis
    unfolding first
    by (simp add: process_preserved [OF r1 e wr1] s t backup_path_memory add.commute)
qed



subsection \<open>The signatures in texts of all code points\<close>

lemma newline_code: "(of_char c :: nat) = 10 \<longleftrightarrow> c = CHR 0x0A"
proof -
  have "(of_char (CHR 0x0A) :: nat) = 10" by simp
  then have "(of_char c :: nat) = 10 \<longleftrightarrow> (of_char c :: nat) = of_char (CHR 0x0A)" by simp
  then show ?thesis by (simp only: of_char_eq_iff)
qed

lemma accepts_wide_of_char: "accepts_wide alnum a (of_char c) = accepts a c"
  by (cases a) (auto simp: code_points_def newline_code)

lemma run_by_map:
  assumes "\<And>a c. acc' a (f c) = acc a c"
  shows "run_by acc' p (map f s) = map_option (map f) (run_by acc p s)"
  using assms
proof (induction acc p s rule: run_by.induct)
  case (1 acc s)
  then show ?case by simp
next
  case (2 acc a r s)
  then show ?case by (cases s) auto
next
  case (3 acc a r s)
  then show ?case by (cases s) (auto split: option.splits)
next
  case (4 acc a r s)
  then show ?case by (cases s) auto
next
  case (5 acc a r s)
  then show ?case by (cases s) (auto split: option.splits)
next
  case (6 acc a r s)
  then show ?case by (cases s) (auto split: option.splits)
qed

lemma re_search_by_map:
  assumes "\<And>a c. acc' a (f c) = acc a c"
  shows "re_search_by acc' p (map f s) = re_search_by acc p s"
proof (induction s)
  case Nil
  from run_by_map [where acc' = acc' and acc = acc and f = f and p = p and s = "[]", OF assms]
  show ?case by simp
next
  case (Cons c cs)
  from run_by_map [where acc' = acc' and acc = acc and f = f and p = p and s = "c # cs", OF assms]
    Cons
  show ?case by simp
qed

lemma detect_injection_latin:
  "detect_injection_by (accepts_wide alnum) self (code_points s) = detect_injection self s"
  by (simp add: detect_injection_by_def code_points_def
        re_search_by_map [where acc' = "accepts_wide alnum" and acc = accepts and f = of_char,
          OF accepts_wide_of_char])


lemma re_search_by_iff:
  "re_search_by acc p s \<longleftrightarrow> (\<exists>u v. s = u @ v \<and> run_by acc p v \<noteq> None)"
proof (induction s)
  case Nil
  then show ?case by simp
next
  case (Cons c cs)
  show ?case
  proof
    assume "re_search_by acc p (c # cs)"
    then consider "run_by acc p (c # cs) \<noteq> None" | "re_search_by acc p cs" by auto
    then show "\<exists>u v. c # cs = u @ v \<and> run_by acc p v \<noteq> None"
    proof cases
      case 1
      then show ?thesis by (intro exI [of _ "[]"] exI [of _ "c # cs"]) simp
    next
      case 2
      with Cons obtain u v where "cs = u @ v" "run_by acc p v \<noteq> None" by blast
      then show ?thesis by (intro exI [of _ "c # u"] exI [of _ v]) simp
    qed
  next
    assume "\<exists>u v. c # cs = u @ v \<and> run_by acc p v \<noteq> None"
    then obtain u v where uv: "c # cs = u @ v" "run_by acc p v \<noteq> None" by blast
    show "re_search_by acc p (c # cs)"
    proof (cases u)
      case Nil
      with uv have "run_by acc p (c # cs) \<noteq> None" by simp
      then show ?thesis by simp
    next
      case (Cons d u')
      with uv have "cs = u' @ v" by simp
      with uv(2) Cons.IH show ?thesis by auto
    qed
  qed
qed

lemma wide_run_lit:
  "run_by (accepts_wide alnum) (lit w @ r) t =
     (if prefix (code_points w) t then run_by (accepts_wide alnum) r (drop (length w) t)
      else None)"
proof (induction w arbitrary: t)
  case Nil
  then show ?case by (simp add: lit_def code_points_def)
next
  case (Cons c w)
  then have "\<And>t. run_by (accepts_wide alnum) (map (\<lambda>c. One (Lit c)) w @ r) t =
        (if prefix (map of_char w) t then run_by (accepts_wide alnum) r (drop (length w) t)
         else None)"
    by (simp add: lit_def code_points_def)
  then show ?case by (cases t) (auto simp: lit_def code_points_def)
qed

lemma small_letter_codes:
  "(of_char p :: nat) = of_char (CHR ''i'') \<longleftrightarrow> p = CHR ''i''"
  "(of_char p :: nat) = of_char (CHR ''k'') \<longleftrightarrow> p = CHR ''k''"
  "(of_char p :: nat) = of_char (CHR ''s'') \<longleftrightarrow> p = CHR ''s''"
  by (simp_all only: of_char_eq_iff)

lemma plain_accepts:
  assumes ascii: "(of_char p :: nat) < 128" and small: "py_lower_char p = p"
  shows "accepts_wide alnum (LitI p) c = (caseless c = of_char p)"
proof (cases "c < 256")
  case True
  then show ?thesis by (simp add: caseless_def small)
next
  case False
  have far: "c \<noteq> of_char p"
    using False ascii by auto
  have latin: "p \<noteq> CHR 0xB5" "p \<noteq> CHR 0xDF" "p \<noteq> CHR 0xE5" "p \<noteq> CHR 0xFF"
    using ascii by auto
  show ?thesis
  proof (cases "p = CHR ''i'' \<or> p = CHR ''k'' \<or> p = CHR ''s''")
    case True
    with False show ?thesis
      by (auto simp: beyond_latin_def caseless_def small Let_def)
  next
    case False
    with \<open>\<not> c < 256\<close> far latin show ?thesis
      unfolding accepts_wide.simps beyond_latin_def caseless_def Let_def small
      by (auto simp add: small_letter_codes simp del: of_char_Char)
  qed
qed


lemma wide_run_lit_i:
  assumes "list_all (\<lambda>p. (of_char p :: nat) < 128 \<and> py_lower_char p = p) w"
  shows "run_by (accepts_wide alnum) (lit_i w @ r) t =
     (if length w \<le> length t \<and> map caseless (take (length w) t) = code_points w
      then run_by (accepts_wide alnum) r (drop (length w) t) else None)"
  using assms
proof (induction w arbitrary: t)
  case Nil
  then show ?case by (simp add: lit_i_def code_points_def)
next
  case (Cons p w)
  then have "(of_char p :: nat) < 128" and "py_lower_char p = p"
    by simp_all
  then have p: "accepts_wide alnum (LitI p) c = (caseless c = of_char p)" for c
    by (rule plain_accepts)
  from Cons have "\<And>t. run_by (accepts_wide alnum) (map (\<lambda>c. One (LitI c)) w @ r) t =
        (if length w \<le> length t \<and> map caseless (take (length w) t) = map of_char w
         then run_by (accepts_wide alnum) r (drop (length w) t) else None)"
    by (simp add: lit_i_def code_points_def)
  then show ?case
    by (cases t) (auto simp: lit_i_def code_points_def p simp del: accepts_wide.simps)
qed

lemma wide_search_lit:
  "re_search_by (accepts_wide alnum) (lit w) t \<longleftrightarrow> sublist (code_points w) t"
proof -
  have "run_by (accepts_wide alnum) (lit w) v \<noteq> None \<longleftrightarrow> prefix (code_points w) v" for v
    using wide_run_lit [of alnum w "[]" v] by simp
  then show ?thesis
    unfolding re_search_by_iff sublist_def prefix_def by blast
qed

lemma wide_search_lit_i:
  assumes "list_all (\<lambda>p. (of_char p :: nat) < 128 \<and> py_lower_char p = p) w"
  shows "re_search_by (accepts_wide alnum) (lit_i w) t
           \<longleftrightarrow> sublist (code_points w) (map caseless t)"
proof -
  have m: "run_by (accepts_wide alnum) (lit_i w) v \<noteq> None \<longleftrightarrow>
        length w \<le> length v \<and> map caseless (take (length w) v) = code_points w" for v
    using wide_run_lit_i [OF assms, of alnum "[]" v] by simp
  show ?thesis
  proof
    assume "re_search_by (accepts_wide alnum) (lit_i w) t"
    then obtain u v where uv: "t = u @ v" "length w \<le> length v"
        "map caseless (take (length w) v) = code_points w"
      unfolding re_search_by_iff m by blast
    have "map caseless t
            = map caseless u @ map caseless (take (length w) v) @ map caseless (drop (length w) v)"
      using uv(1) by (simp flip: map_append)
    with uv(3) show "sublist (code_points w) (map caseless t)"
      by (auto simp: sublist_def)
  next
    assume "sublist (code_points w) (map caseless t)"
    then obtain ps ss where "map caseless t = ps @ code_points w @ ss"
      by (auto simp: sublist_def)
    then obtain u x v where t: "t = u @ x @ v" and x: "map caseless x = code_points w"
      by (metis append_eq_map_conv map_eq_append_conv)
    from x have "length (map caseless x) = length (code_points w)" by simp
    then have len: "length x = length w" by (simp add: code_points_def)
    have "run_by (accepts_wide alnum) (lit_i w) (x @ v) \<noteq> None"
      unfolding m using x len by simp
    with t show "re_search_by (accepts_wide alnum) (lit_i w) t"
      unfolding re_search_by_iff by blast
  qed
qed


lemma wide_run_lit_only:
  "run_by (accepts_wide alnum) (lit w) s =
     (if prefix (code_points w) s then Some (drop (length w) s) else None)"
  using wide_run_lit [of alnum w "[]" s] by simp

lemma wide_run_bracketed:
  "run_by (accepts_wide alnum) ([One (OneOf ''[('')] @ lit ''inject'' @ [One (OneOf ''])'')]) v
     \<noteq> None \<longleftrightarrow>
   prefix (code_points ''[inject]'') v \<or> prefix (code_points ''[inject)'') v
   \<or> prefix (code_points ''(inject]'') v \<or> prefix (code_points ''(inject)'') v"
proof (cases v)
  case Nil
  then show ?thesis by (simp add: code_points_def)
next
  case (Cons c cs)
  have tail: "run_by (accepts_wide alnum) [One (OneOf ''])'')] t \<noteq> None \<longleftrightarrow>
        prefix (code_points '']'') t \<or> prefix (code_points '')'') t" for t
    by (cases t) (auto simp: code_points_def)
  have "run_by (accepts_wide alnum) ([One (OneOf ''[('')] @ lit ''inject'' @ [One (OneOf ''])'')]) v
          \<noteq> None \<longleftrightarrow>
        (c = of_char (CHR ''['') \<or> c = of_char (CHR ''('')) \<and> prefix (code_points ''inject'') cs
        \<and> run_by (accepts_wide alnum) [One (OneOf ''])'')] (drop (length ''inject'') cs) \<noteq> None"
    using Cons by (simp add: wide_run_lit code_points_def)
  also have "\<dots> \<longleftrightarrow> (c = of_char (CHR ''['') \<or> c = of_char (CHR ''('')) \<and>
        (prefix (code_points ''inject]'') cs \<or> prefix (code_points ''inject)'') cs)"
    unfolding tail by (auto simp: prefix_def code_points_def)
  also have "\<dots> \<longleftrightarrow> prefix (code_points ''[inject]'') v \<or> prefix (code_points ''[inject)'') v
        \<or> prefix (code_points ''(inject]'') v \<or> prefix (code_points ''(inject)'') v"
    using Cons by (auto simp: code_points_def)
  finally show ?thesis .
qed

lemma wide_run_url:
  "run_by (accepts_wide alnum) (lit ''http'' @ [Opt (OneOf ''s'')] @ lit ''://'') v \<noteq> None \<longleftrightarrow>
     prefix (code_points ''http://'') v \<or> prefix (code_points ''https://'') v"
proof -
  have opt: "run_by (accepts_wide alnum) (Opt (OneOf ''s'') # lit ''://'') t \<noteq> None \<longleftrightarrow>
        prefix (code_points ''://'') t \<or> prefix (code_points ''s://'') t" for t
    by (cases t) (auto simp: wide_run_lit_only code_points_def)
  have "run_by (accepts_wide alnum) (lit ''http'' @ [Opt (OneOf ''s'')] @ lit ''://'') v \<noteq> None \<longleftrightarrow>
        prefix (code_points ''http'') v
        \<and> run_by (accepts_wide alnum) (Opt (OneOf ''s'') # lit ''://'') (drop (length ''http'') v)
            \<noteq> None"
    by (simp add: wide_run_lit)
  also have "\<dots> \<longleftrightarrow> prefix (code_points ''http://'') v \<or> prefix (code_points ''https://'') v"
    unfolding opt by (auto simp: prefix_def code_points_def)
  finally show ?thesis .
qed

lemma wide_search_bracketed:
  "re_search_by (accepts_wide alnum) ([One (OneOf ''[('')] @ lit ''inject'' @ [One (OneOf ''])'')]) t
     \<longleftrightarrow>
   sublist (code_points ''[inject]'') t \<or> sublist (code_points ''[inject)'') t
   \<or> sublist (code_points ''(inject]'') t \<or> sublist (code_points ''(inject)'') t"
  unfolding re_search_by_iff wide_run_bracketed sublist_split by blast

lemma wide_search_url:
  "re_search_by (accepts_wide alnum) (lit ''http'' @ [Opt (OneOf ''s'')] @ lit ''://'') t \<longleftrightarrow>
     sublist (code_points ''http://'') t \<or> sublist (code_points ''https://'') t"
  unfolding re_search_by_iff wide_run_url sublist_split by blast

lemma phrases_plain:
  "list_all (\<lambda>p. (of_char p :: nat) < 128 \<and> py_lower_char p = p) ''ignore previous instructions''"
  "list_all (\<lambda>p. (of_char p :: nat) < 128 \<and> py_lower_char p = p) ''system prompt''"
  "list_all (\<lambda>p. (of_char p :: nat) < 128 \<and> py_lower_char p = p) ''forget everything''"
  "list_all (\<lambda>p. (of_char p :: nat) < 128 \<and> py_lower_char p = p) ''output as code''"
  "list_all (\<lambda>p. (of_char p :: nat) < 128 \<and> py_lower_char p = p) ''reveal secret''"
  by code_simp+

lemma detect_injection_wide_iff:
  "fst (detect_injection_by (accepts_wide alnum) self t) \<longleftrightarrow>
     sublist (code_points ''ignore previous instructions'') (map caseless t)
     \<or> sublist (code_points ''system prompt'') (map caseless t)
     \<or> sublist (code_points ''forget everything'') (map caseless t)
     \<or> sublist (code_points ''output as code'') (map caseless t)
     \<or> sublist (code_points ''reveal secret'') (map caseless t)
     \<or> sublist (code_points ''[inject]'') t \<or> sublist (code_points ''[inject)'') t
     \<or> sublist (code_points ''(inject]'') t \<or> sublist (code_points ''(inject)'') t
     \<or> sublist (code_points ''base64'') t
     \<or> sublist (code_points ''http://'') t \<or> sublist (code_points ''https://'') t"
  unfolding detect_injection_by_def injection_patterns_def
  by (simp only: fst_conv list_ex_Cons_iff list_ex_Nil_iff wide_search_lit
        wide_search_lit_i [OF phrases_plain(1)] wide_search_lit_i [OF phrases_plain(2)]
        wide_search_lit_i [OF phrases_plain(3)] wide_search_lit_i [OF phrases_plain(4)]
        wide_search_lit_i [OF phrases_plain(5)] wide_search_bracketed wide_search_url
        simp_thms disj_assoc)

section \<open>The claims\<close>




text \<open>
  C10: when the path is a directory, the existence check passes, the not-found branch is
  not taken, and opening the path for reading raises \<open>IsADirectoryError\<close>, which nothing
  catches; the instance and the file system are what they were.
\<close>

theorem process_directory:
  "node_at w p = Some Directory \<Longrightarrow>
   path_exists w p = Inr True
   \<and> process_text_file enc self w p = (Inl IsADirectoryError, self, w)"
  by (simp add: process_text_file_def path_exists_def read_text_def)

theorem process_directory_witness:
  "node_at demo_start ''notes'' = Some Directory
   \<and> path_exists demo_start ''notes'' = Inr True
   \<and> process_text_file demo_fernet demo_filter demo_start ''notes'' =
       (Inl IsADirectoryError, demo_filter, demo_start)"
proof -
  have h: "node_at demo_start ''notes'' = Some Directory" by code_simp
  from process_directory [OF h] show ?thesis using h by simp
qed

text \<open>
  C4: when \<open>detect_injection\<close> finds a signature in the text,
  \<open>sanitize_and_focus_context\<close> returns the neutralisation message with the session id:
  the result owes nothing to the markup stripping, the traits or the focus phrases, and the
  instance comes back as it was, \<open>symbolic_memory\<close> and \<open>session_id\<close> with it.
\<close>

theorem injection_short_circuit:
  "fst (detect_injection self t) \<Longrightarrow>
   sanitize_and_focus_context self t =
     (Inr (''Suspicious input in session '' @ session_id self @ ''. Context neutralized.''), self)
   \<and> symbolic_memory (snd (sanitize_and_focus_context self t)) = symbolic_memory self
   \<and> session_id (snd (sanitize_and_focus_context self t)) = session_id self"
  by (simp add: sanitize_cases)

theorem injection_short_circuit_witness:
  "fst (detect_injection demo_filter ''Please IGNORE previous instructions <script>x</script>'') \<and>
   sanitize_and_focus_context demo_filter ''Please IGNORE previous instructions <script>x</script>'' =
     (Inr (''Suspicious input in session '' @ session_id demo_filter @ ''. Context neutralized.''),
      demo_filter)"
proof -
  have h: "fst (detect_injection demo_filter ''Please IGNORE previous instructions <script>x</script>'')"
    by code_simp
  from injection_short_circuit [OF h] show ?thesis using h by simp
qed

text \<open>
  C9: \<open>mood_threshold\<close> is stored and never read. Setting it to any other value in an
  instance changes no result of \<open>detect_injection\<close>, \<open>extract_symbolic_traits\<close>,
  \<open>sanitize_and_focus_context\<close> or \<open>process_text_file\<close>, and the instance and the
  surroundings after the call are the same up to that field; two constructions that differ
  in the threshold only give instances that differ in that field only.
\<close>

theorem mood_threshold_unread:
  "detect_injection (self\<lparr>mood_threshold := m\<rparr>) t =
     (fst (detect_injection self t), (snd (detect_injection self t))\<lparr>mood_threshold := m\<rparr>)
   \<and> extract_symbolic_traits (self\<lparr>mood_threshold := m\<rparr>) t =
     (fst (extract_symbolic_traits self t),
      (snd (extract_symbolic_traits self t))\<lparr>mood_threshold := m\<rparr>)
   \<and> sanitize_and_focus_context (self\<lparr>mood_threshold := m\<rparr>) t =
     (fst (sanitize_and_focus_context self t),
      (snd (sanitize_and_focus_context self t))\<lparr>mood_threshold := m\<rparr>)
   \<and> process_text_file enc (self\<lparr>mood_threshold := m\<rparr>) w p =
     (fst (process_text_file enc self w p),
      (fst (snd (process_text_file enc self w p)))\<lparr>mood_threshold := m\<rparr>,
      snd (snd (process_text_file enc self w p)))
   \<and> init m dir w =
     (map_sum id (\<lambda>f. f\<lparr>mood_threshold := m\<rparr>) (fst (init m' dir w)), snd (init m' dir w))"
proof (intro conjI)
  show "detect_injection (self\<lparr>mood_threshold := m\<rparr>) t =
     (fst (detect_injection self t), (snd (detect_injection self t))\<lparr>mood_threshold := m\<rparr>)"
    by (simp add: detect_injection_by_def)
  show "extract_symbolic_traits (self\<lparr>mood_threshold := m\<rparr>) t =
     (fst (extract_symbolic_traits self t),
      (snd (extract_symbolic_traits self t))\<lparr>mood_threshold := m\<rparr>)"
    by (simp add: extract_symbolic_traits_def Let_def)
  have tr: "\<And>x. fst (extract_symbolic_traits (self\<lparr>mood_threshold := m\<rparr>) x) =
                fst (extract_symbolic_traits self x)"
    by (simp add: traits_shape)
  have di: "fst (detect_injection (self\<lparr>mood_threshold := m\<rparr>) t) = fst (detect_injection self t)"
    by (simp add: detect_injection_by_def)
  show "sanitize_and_focus_context (self\<lparr>mood_threshold := m\<rparr>) t =
     (fst (sanitize_and_focus_context self t),
      (snd (sanitize_and_focus_context self t))\<lparr>mood_threshold := m\<rparr>)"
    by (simp add: sanitize_cases tr di)
  show "process_text_file enc (self\<lparr>mood_threshold := m\<rparr>) w p =
     (fst (process_text_file enc self w p),
      (fst (snd (process_text_file enc self w p)))\<lparr>mood_threshold := m\<rparr>,
      snd (snd (process_text_file enc self w p)))"
  proof (cases "read_text w p")
    case (Inl e)
    show ?thesis
    proof (cases "node_at w p")
      case None
      then show ?thesis by (simp add: process_absent)
    next
      case (Some n)
      with Inl show ?thesis by (simp add: process_unreadable)
    qed
  next
    case (Inr body)
    show ?thesis
    proof (cases "py_in ''energetic'' (py_lower body)")
      case False
      with Inr show ?thesis by (simp add: process_low_energy tr)
    next
      case True
      let ?mem = "(symbolic_memory self)(''text_section'' \<mapsto>
             \<lparr>content = body, traits = fst (extract_symbolic_traits self body)\<rparr>)"
      have s: "fst (sanitize_and_focus_context (self\<lparr>mood_threshold := m, symbolic_memory := ?mem\<rparr>) body)
               = fst (sanitize_and_focus_context (self\<lparr>symbolic_memory := ?mem\<rparr>) body)"
        by (rule sanitize_reads_session_id) simp
      have b: "backup_path (self\<lparr>mood_threshold := m, symbolic_memory := ?mem\<rparr>) p
               = backup_path (self\<lparr>symbolic_memory := ?mem\<rparr>) p"
        by (simp add: backup_path_def)
      from Inr True show ?thesis
        by (simp add: process_high_energy tr key_and_token s b split: sum.splits)
    qed
  qed
  show "init m dir w =
     (map_sum id (\<lambda>f. f\<lparr>mood_threshold := m\<rparr>) (fst (init m' dir w)), snd (init m' dir w))"
    by (simp add: init_def generate_session_id_def token_hex_def urandom_def Let_def
             split: sum.splits prod.splits)
qed

theorem mood_threshold_unread_witness:
  "process_text_file demo_fernet (demo_filter\<lparr>mood_threshold := 9 / 10\<rparr>) demo_start ''test_log.txt'' =
     (fst (process_text_file demo_fernet demo_filter demo_start ''test_log.txt''),
      (fst (snd (process_text_file demo_fernet demo_filter demo_start ''test_log.txt'')))
        \<lparr>mood_threshold := 9 / 10\<rparr>,
      snd (snd (process_text_file demo_fernet demo_filter demo_start ''test_log.txt'')))"
  using mood_threshold_unread [where self = demo_filter and m = "9 / 10" and enc = demo_fernet
          and w = demo_start and p = "''test_log.txt''"]
  by simp

text \<open>
  C2 as the code has it: \<open>detect_injection\<close> returns true exactly when the text holds one
  of the five phrases, each letter in either case, or holds, spelled in lower case as in the
  pattern, the token \<open>inject\<close> between an opening square or round bracket and a closing one
  (the two need not be of the same kind), the substring \<open>base64\<close>, or \<open>http://\<close> or
  \<open>https://\<close>. Only the five phrases carry the \<open>(?i)\<close> flag; the other three patterns
  match their own spelling only. The text is any list of code points; under \<open>(?i)\<close> the
  long s also stands for \<open>s\<close>, and the dotted capital and the dotless small i for \<open>i\<close>.
  On a text of code points below 256 this is the \<open>detect_injection\<close> of the pipeline.
\<close>

theorem detect_injection_signatures:
  "(fst (detect_injection_by (accepts_wide alnum) self t) \<longleftrightarrow>
      sublist (code_points ''ignore previous instructions'') (map caseless t)
      \<or> sublist (code_points ''system prompt'') (map caseless t)
      \<or> sublist (code_points ''forget everything'') (map caseless t)
      \<or> sublist (code_points ''output as code'') (map caseless t)
      \<or> sublist (code_points ''reveal secret'') (map caseless t)
      \<or> sublist (code_points ''[inject]'') t \<or> sublist (code_points ''[inject)'') t
      \<or> sublist (code_points ''(inject]'') t \<or> sublist (code_points ''(inject)'') t
      \<or> sublist (code_points ''base64'') t
      \<or> sublist (code_points ''http://'') t \<or> sublist (code_points ''https://'') t)
   \<and> detect_injection_by (accepts_wide alnum) self (code_points s) = detect_injection self s"
  using detect_injection_wide_iff [of alnum self t] detect_injection_latin [of alnum self s]
  by (rule conjI)

theorem detect_injection_signatures_witness:
  "sublist (code_points ''system prompt'') (map caseless long_s_text)
   \<and> fst (detect_injection_by (accepts_wide demo_alnum) demo_filter long_s_text)
   \<and> fst (detect_injection demo_filter ''Now SYSTEM PROMPT please'')"
proof -
  have h: "sublist (code_points ''system prompt'') (map caseless long_s_text)"
    by code_simp
  note both = detect_injection_signatures
    [of demo_alnum demo_filter long_s_text "''Now SYSTEM PROMPT please''"]
  from both [THEN conjunct1] h
  have a: "fst (detect_injection_by (accepts_wide demo_alnum) demo_filter long_s_text)"
    by blast
  have "py_lower ''Now SYSTEM PROMPT please'' = ''now system prompt please''" by code_simp
  then have "sublist ''system prompt'' (py_lower ''Now SYSTEM PROMPT please'')"
    by (simp only:) code_simp
  then have b: "fst (detect_injection demo_filter ''Now SYSTEM PROMPT please'')"
    unfolding detect_injection_iff by blast
  from h a b show ?thesis by blast
qed

text \<open>
  C2 as stated fails: a text that spells the bracketed token, \<open>base64\<close> and the URL prefix
  in capitals holds all three signatures up to letter case, and is not detected.
\<close>

theorem detect_injection_case_counterexample:
  "sublist ''[inject]'' (py_lower ''[INJECT] BASE64 HTTPS://host'')
   \<and> sublist ''base64'' (py_lower ''[INJECT] BASE64 HTTPS://host'')
   \<and> sublist ''https://'' (py_lower ''[INJECT] BASE64 HTTPS://host'')
   \<and> \<not> fst (detect_injection demo_filter ''[INJECT] BASE64 HTTPS://host'')"
proof -
  have low: "py_lower ''[INJECT] BASE64 HTTPS://host'' = ''[inject] base64 https://host''"
    by code_simp
  show ?thesis
    unfolding detect_injection_iff low by code_simp
qed

text \<open>
  C3 as the code has it: each of the two \<open>re.sub\<close> calls is one scan from the left that
  cuts out the matches it meets and joins what lies between them. The text after the first
  call is the stretches between the script blocks, joined, and none of these stretches holds
  a script block; the output is the stretches of that text between the handler attributes,
  joined, and none of them holds a handler attribute. Nothing is scanned again, so a block
  or an attribute that only comes about where two stretches are joined stays in the output.
\<close>

theorem strip_markup_one_pass:
  "re_sub script_block s = concat (re_split script_block [] s)
   \<and> (\<forall>seg \<in> set (re_split script_block [] s). \<not> re_search script_block seg)
   \<and> strip_markup s = concat (re_split handler_attr [] (re_sub script_block s))
   \<and> (\<forall>seg \<in> set (re_split handler_attr [] (re_sub script_block s)).
         \<not> re_search handler_attr seg)"
  using re_split_free [OF script_block_extends script_block_shrinks]
    re_split_free [OF handler_attr_extends handler_attr_shrinks]
  by (auto simp: strip_markup_def re_split_concat)

theorem strip_markup_one_pass_witness:
  "re_split script_block [] ''<p onclick=\"go()\">hi</p><SCRIPT>steal()</SCRIPT> bye''
     = [''<p onclick=\"go()\">hi</p>'', '' bye'']
   \<and> \<not> re_search script_block ''<p onclick=\"go()\">hi</p>''
   \<and> \<not> re_search script_block '' bye''
   \<and> strip_markup ''<p onclick=\"go()\">hi</p><SCRIPT>steal()</SCRIPT> bye'' = ''<p >hi</p> bye''"
proof -
  have segs: "re_split script_block [] ''<p onclick=\"go()\">hi</p><SCRIPT>steal()</SCRIPT> bye''
     = [''<p onclick=\"go()\">hi</p>'', '' bye'']"
    by code_simp
  have out: "strip_markup ''<p onclick=\"go()\">hi</p><SCRIPT>steal()</SCRIPT> bye'' = ''<p >hi</p> bye''"
    by code_simp
  from strip_markup_one_pass [of "''<p onclick=\"go()\">hi</p><SCRIPT>steal()</SCRIPT> bye''"]
  show ?thesis unfolding segs using segs out by simp
qed

text \<open>
  C3 as stated fails: removing the inner script block of this text joins \<open><scr\<close> and
  \<open>ipt>\<close>, and the output is a script block; removing the inner attribute of the second
  text leaves an \<open>onclick\<close> attribute.
\<close>

theorem strip_markup_splice_counterexample:
  "strip_markup ''<scr<script></script>ipt>alert(1)</script>'' = ''<script>alert(1)</script>''
   \<and> re_search script_block (strip_markup ''<scr<script></script>ipt>alert(1)</script>'')
   \<and> strip_markup ''<a oonx=\"\"nclick=\"go()\">'' = ''<a onclick=\"go()\">''
   \<and> re_search handler_attr (strip_markup ''<a oonx=\"\"nclick=\"go()\">'')"
  by code_simp

text \<open>
  C5: when the text holds no injection signature and its sanitized form does not hold
  \<open>chaotic\<close> in any letter case, the message is the focused one, and the focused output in
  it is made of the white-space-delimited tokens of the sanitized text whose lower-cased
  form is \<open>symbiosis\<close>, \<open>compression\<close> or \<open>truth\<close>, in their order, repeated as often as
  they occur, with one space between two of them.
\<close>

theorem focus_keeps_approved_tokens:
  "\<not> fst (detect_injection self t) \<Longrightarrow> \<not> py_in ''chaotic'' (py_lower (strip_markup t)) \<Longrightarrow>
   sanitize_and_focus_context self t =
     (Inr (''Focused context in '' @ session_id self @ '': ''
             @ py_join '' ''
                 (filter (\<lambda>word. py_lower word \<in> {''symbiosis'', ''compression'', ''truth''})
                    (words_of (strip_markup t)))
             @ ''. Traits: '' @ repr_dict (fst (extract_symbolic_traits self (strip_markup t)))),
      self)"
  by (simp add: sanitize_cases py_split_words focus_phrases_def)

theorem focus_keeps_approved_tokens_witness:
  "\<not> fst (detect_injection demo_filter ''Truth  and <b onclick=\"x()\">symbiosis</b> of symbiosis\<newline>TRUTH compression.'')
   \<and> \<not> py_in ''chaotic'' (py_lower (strip_markup ''Truth  and <b onclick=\"x()\">symbiosis</b> of symbiosis\<newline>TRUTH compression.''))
   \<and> fst (sanitize_and_focus_context demo_filter ''Truth  and <b onclick=\"x()\">symbiosis</b> of symbiosis\<newline>TRUTH compression.'')
       = Inr (''Focused context in '' @ session_id demo_filter @ '': Truth symbiosis TRUTH. Traits: ''
               @ repr_dict [(''energy'', ''neutral''), (''ethics'', ''grounded'')])"
proof -
  let ?t = "''Truth  and <b onclick=\"x()\">symbiosis</b> of symbiosis\<newline>TRUTH compression.''"
  have clean: "strip_markup ?t = ''Truth  and <b >symbiosis</b> of symbiosis\<newline>TRUTH compression.''"
    by code_simp
  have low: "py_lower ?t = ''truth  and <b onclick=\"x()\">symbiosis</b> of symbiosis\<newline>truth compression.''"
    by code_simp
  have low': "py_lower ''Truth  and <b >symbiosis</b> of symbiosis\<newline>TRUTH compression.''
      = ''truth  and <b >symbiosis</b> of symbiosis\<newline>truth compression.''"
    by code_simp
  have h1: "\<not> fst (detect_injection demo_filter ?t)"
    unfolding detect_injection_iff low by code_simp
  have h2: "\<not> py_in ''chaotic'' (py_lower (strip_markup ?t))"
    unfolding clean low' by code_simp
  have toks: "py_join '' ''
                 (filter (\<lambda>word. py_lower word \<in> {''symbiosis'', ''compression'', ''truth''})
                    (words_of (strip_markup ?t))) = ''Truth symbiosis TRUTH''"
    unfolding clean py_split_words [symmetric] by code_simp
  have tr: "fst (extract_symbolic_traits demo_filter (strip_markup ?t))
      = [(''energy'', ''neutral''), (''ethics'', ''grounded'')]"
    unfolding traits_shape clean low' by code_simp
  from focus_keeps_approved_tokens [OF h1 h2] h1 h2 show ?thesis
    unfolding toks tr by simp
qed

text \<open>
  C8 as the code has it: the session identifier that \<open>__init__\<close> stores is 32 characters
  long, all of them hexadecimal digits; \<open>detect_injection\<close>, \<open>extract_symbolic_traits\<close>,
  \<open>sanitize_and_focus_context\<close> and \<open>process_text_file\<close> return the instance with the same
  identifier. Every message of \<open>sanitize_and_focus_context\<close> holds the identifier, and so
  does every message of \<open>process_text_file\<close> but one: the notice for a low-energy text,
  which begins with \<open>Buffered low-energy text from\<close>, names the path and the traits only.
\<close>

theorem session_id_fixed:
  "(fst (init threshold dir w0) = Inr f \<longrightarrow>
      length (session_id f) = 32 \<and> set (session_id f) \<subseteq> set ''0123456789abcdef'')
   \<and> session_id (snd (detect_injection self t)) = session_id self
   \<and> session_id (snd (extract_symbolic_traits self t)) = session_id self
   \<and> session_id (snd (sanitize_and_focus_context self t)) = session_id self
   \<and> session_id (fst (snd (process_text_file enc self w p))) = session_id self
   \<and> (\<exists>m. fst (sanitize_and_focus_context self t) = Inr m \<and> sublist (session_id self) m)
   \<and> (\<forall>m. fst (process_text_file enc self w p) = Inr m \<longrightarrow>
          sublist (session_id self) m \<or> prefix ''Buffered low-energy text from '' m)"
proof (intro conjI impI allI)
  assume f: "fst (init threshold dir w0) = Inr f"
  show "length (session_id f) = 32"
    by (simp add: init_session_id [OF f] hexlify_length)
  show "set (session_id f) \<subseteq> set ''0123456789abcdef''"
    unfolding init_session_id [OF f] by (rule hexlify_chars)
next
  show "session_id (snd (detect_injection self t)) = session_id self"
    by (simp add: detect_injection_self)
  show "session_id (snd (extract_symbolic_traits self t)) = session_id self"
    by (simp add: extract_symbolic_traits_self)
  show "session_id (snd (sanitize_and_focus_context self t)) = session_id self"
    by (simp add: sanitize_self)
  show "session_id (fst (snd (process_text_file enc self w p))) = session_id self"
    by (rule process_keeps_session_id)
  show "\<exists>m. fst (sanitize_and_focus_context self t) = Inr m \<and> sublist (session_id self) m"
    by (rule sanitize_names_session)
next
  fix m
  assume "fst (process_text_file enc self w p) = Inr m"
  then show "sublist (session_id self) m \<or> prefix ''Buffered low-energy text from '' m"
    by (rule process_message_names_session)
qed

theorem session_id_fixed_witness:
  "fst (init (1 / 2) ''private_logs'' demo_world) = Inr demo_filter
   \<and> session_id demo_filter = ''030a11181f262d343b424950575e656c''
   \<and> length (session_id demo_filter) = 32
   \<and> set (session_id demo_filter) \<subseteq> set ''0123456789abcdef''
   \<and> fst (process_text_file demo_fernet demo_filter demo_start ''nope'')
       = Inr ''File nope not found in session 030a11181f262d343b424950575e656c.''
   \<and> sublist (session_id demo_filter) ''File nope not found in session 030a11181f262d343b424950575e656c.''"
proof -
  have "\<not> isl (fst (init (1 / 2) ''private_logs'' demo_world))"
    by code_simp
  then have f: "fst (init (1 / 2) ''private_logs'' demo_world) = Inr demo_filter"
    by (cases "fst (init (1 / 2) ''private_logs'' demo_world)") (simp_all add: demo_filter_def)
  have sid: "session_id demo_filter = ''030a11181f262d343b424950575e656c''"
    by code_simp
  have absent: "path_exists demo_start ''nope'' = Inr False" by code_simp
  have msg: "fst (process_text_file demo_fernet demo_filter demo_start ''nope'')
       = Inr ''File nope not found in session 030a11181f262d343b424950575e656c.''"
    using absent by (simp add: process_text_file_def sid)
  from session_id_fixed [where threshold = "1 / 2" and dir = "''private_logs''"
      and ?w0.0 = demo_world and f = demo_filter and self = demo_filter and enc = demo_fernet
      and w = demo_start and p = "''nope''"] f msg
  have "length (session_id demo_filter) = 32"
    and "set (session_id demo_filter) \<subseteq> set ''0123456789abcdef''"
    and "sublist (session_id demo_filter) ''File nope not found in session 030a11181f262d343b424950575e656c.''
         \<or> prefix ''Buffered low-energy text from '' ''File nope not found in session 030a11181f262d343b424950575e656c.''"
    by blast+
  with f sid msg show ?thesis by (simp del: set_simps)
qed

text \<open>
  C8 as stated fails in its last part: the notice for a low-energy file does not hold the
  session identifier.
\<close>

theorem buffered_notice_counterexample:
  "fst (process_text_file demo_fernet demo_filter demo_start ''calm.txt'')
     = Inr (''Buffered low-energy text from calm.txt. Traits: ''
             @ repr_dict [(''energy'', ''neutral''), (''ethics'', ''grounded'')])
   \<and> \<not> sublist (session_id demo_filter)
         (''Buffered low-energy text from calm.txt. Traits: ''
            @ repr_dict [(''energy'', ''neutral''), (''ethics'', ''grounded'')])"
  by code_simp

text \<open>
  C6: on the text \<open>Energetic symbiosis truth with chaotic injection attempt.\<close> no signature
  matches (the text holds the word \<open>injection\<close>, and the bracketed pattern does not match
  it); the raw traits are energy high and ethics chaotic; \<open>sanitize_and_focus_context\<close>
  returns the pruned message with the session id and the traits; and
  \<open>process_text_file\<close> on a file with this text, when the backup can be written, stores the
  section record, writes the one backup file and returns the message that embeds the
  pruned one.
\<close>

theorem self_test_end_to_end:
  "\<not> fst (detect_injection self test_content)
   \<and> sublist ''injection'' test_content
   \<and> \<not> re_search ([One (OneOf ''[('')] @ lit ''inject'' @ [One (OneOf ''])'')]) test_content
   \<and> fst (extract_symbolic_traits self test_content)
        = [(''energy'', ''high''), (''ethics'', ''chaotic'')]
   \<and> sanitize_and_focus_context self test_content =
        (Inr (''Pruned context in '' @ session_id self @ '' for symbiosis. Traits: ''
                @ repr_dict [(''energy'', ''high''), (''ethics'', ''chaotic'')]), self)
   \<and> (read_text w p = Inr test_content \<longrightarrow> writable w (backup_path self p) \<longrightarrow>
        process_text_file enc self w p =
          (Inr (''Processed + preserved '' @ p @ '': ''
                  @ ''Pruned context in '' @ session_id self @ '' for symbiosis. Traits: ''
                  @ repr_dict [(''energy'', ''high''), (''ethics'', ''chaotic'')]),
           self\<lparr>symbolic_memory := (symbolic_memory self)(''text_section'' \<mapsto>
                  \<lparr>content = test_content,
                   traits = [(''energy'', ''high''), (''ethics'', ''chaotic'')]\<rparr>)\<rparr>,
           w\<lparr>drawn := drawn w + 48,
             files := (files w)(backup_path self p \<mapsto>
                        File (Text (enc (map (entropy w) [drawn w ..< drawn w + 32]) (clock w)
                                        (map (entropy w) [drawn w + 32 ..< drawn w + 48])
                                        test_content))),
             notices := notices w @ [backup_path self p]\<rparr>))"
proof (intro conjI impI)
  show "\<not> fst (detect_injection self test_content)"
    by (rule test_content_no_signature)
  show "sublist ''injection'' test_content"
    by code_simp
  show "\<not> re_search ([One (OneOf ''[('')] @ lit ''inject'' @ [One (OneOf ''])'')]) test_content"
    unfolding search_bracketed by code_simp
  show "fst (extract_symbolic_traits self test_content)
        = [(''energy'', ''high''), (''ethics'', ''chaotic'')]"
    by (rule test_content_traits)
  show "sanitize_and_focus_context self test_content =
        (Inr (''Pruned context in '' @ session_id self @ '' for symbiosis. Traits: ''
                @ repr_dict [(''energy'', ''high''), (''ethics'', ''chaotic'')]), self)"
    by (rule test_content_pruned)
next
  assume r: "read_text w p = Inr test_content" and wr: "writable w (backup_path self p)"
  show "process_text_file enc self w p =
          (Inr (''Processed + preserved '' @ p @ '': ''
                  @ ''Pruned context in '' @ session_id self @ '' for symbiosis. Traits: ''
                  @ repr_dict [(''energy'', ''high''), (''ethics'', ''chaotic'')]),
           self\<lparr>symbolic_memory := (symbolic_memory self)(''text_section'' \<mapsto>
                  \<lparr>content = test_content,
                   traits = [(''energy'', ''high''), (''ethics'', ''chaotic'')]\<rparr>)\<rparr>,
           w\<lparr>drawn := drawn w + 48,
             files := (files w)(backup_path self p \<mapsto>
                        File (Text (enc (map (entropy w) [drawn w ..< drawn w + 32]) (clock w)
                                        (map (entropy w) [drawn w + 32 ..< drawn w + 48])
                                        test_content))),
             notices := notices w @ [backup_path self p]\<rparr>)"
    unfolding process_preserved [OF r test_content_energetic wr] test_content_pruned
      test_content_traits
    by simp
qed

theorem self_test_end_to_end_witness:
  "read_text demo_start ''test_log.txt'' = Inr test_content
   \<and> writable demo_start (backup_path demo_filter ''test_log.txt'')
   \<and> fst (process_text_file demo_fernet demo_filter demo_start ''test_log.txt'') =
        Inr (''Processed + preserved test_log.txt: Pruned context in ''
               @ session_id demo_filter @ '' for symbiosis. Traits: ''
               @ repr_dict [(''energy'', ''high''), (''ethics'', ''chaotic'')])
   \<and> files (snd (snd (process_text_file demo_fernet demo_filter demo_start ''test_log.txt'')))
        ''private_logs/test_log_030a11181f262d343b424950575e656c.enc'' \<noteq> None
   \<and> symbolic_memory (fst (snd (process_text_file demo_fernet demo_filter demo_start ''test_log.txt'')))
        ''text_section''
        = Some \<lparr>content = test_content,
                 traits = [(''energy'', ''high''), (''ethics'', ''chaotic'')]\<rparr>"
  using self_test_end_to_end [of demo_filter demo_start "''test_log.txt''" demo_fernet]
    demo_reads_test_log demo_backup_writable
  by (simp add: demo_backup_path)

text \<open>
  C1 as the code has it: a call of \<open>process_text_file\<close> on a readable file whose text
  holds \<open>energetic\<close> in any letter case, with a backup path that can be written, returns a
  message and writes one file, at \<open><backup_dir>/<stem>_<session_id>.enc\<close>: the text under a
  key that is the next 32 bytes of the random source, which no earlier draw has used; no
  other path changes. The path is the same for every call of the instance on the file, so
  the file is new only if no file had that name: the same call again draws another key,
  from later bytes of the source, and writes over the first backup.
\<close>

theorem backup_written_and_overwritten:
  "read_text w p = Inr body \<Longrightarrow> py_in ''energetic'' (py_lower body) \<Longrightarrow>
   writable w (backup_path self p) \<Longrightarrow>
   \<not> isl (fst (process_text_file enc self w p))
   \<and> snd (snd (process_text_file enc self w p)) =
        w\<lparr>drawn := drawn w + 48,
          files := (files w)(backup_path self p \<mapsto>
                     File (Text (enc (map (entropy w) [drawn w ..< drawn w + 32]) (clock w)
                                     (map (entropy w) [drawn w + 32 ..< drawn w + 48]) body))),
          notices := notices w @ [backup_path self p]\<rparr>
   \<and> backup_path (fst (snd (process_text_file enc self w p))) p = backup_path self p
   \<and> (p \<noteq> backup_path self p \<longrightarrow>
        \<not> isl (fst (process_text_file enc (fst (snd (process_text_file enc self w p)))
                       (snd (snd (process_text_file enc self w p))) p))
        \<and> snd (snd (process_text_file enc (fst (snd (process_text_file enc self w p)))
                       (snd (snd (process_text_file enc self w p))) p)) =
             w\<lparr>drawn := drawn w + 96,
               files := (files w)(backup_path self p \<mapsto>
                          File (Text (enc (map (entropy w) [drawn w + 48 ..< drawn w + 80]) (clock w)
                                          (map (entropy w) [drawn w + 80 ..< drawn w + 96]) body))),
               notices := notices w @ [backup_path self p, backup_path self p]\<rparr>)"
proof (intro conjI impI)
  assume r: "read_text w p = Inr body" and e: "py_in ''energetic'' (py_lower body)"
    and wr: "writable w (backup_path self p)"
  note first = process_preserved [OF r e wr, of enc]
  show "\<not> isl (fst (process_text_file enc self w p))"
    by (simp add: first)
  show "snd (snd (process_text_file enc self w p)) =
        w\<lparr>drawn := drawn w + 48,
          files := (files w)(backup_path self p \<mapsto>
                     File (Text (enc (map (entropy w) [drawn w ..< drawn w + 32]) (clock w)
                                     (map (entropy w) [drawn w + 32 ..< drawn w + 48]) body))),
          notices := notices w @ [backup_path self p]\<rparr>"
    by (simp add: first)
  show "backup_path (fst (snd (process_text_file enc self w p))) p = backup_path self p"
    by (simp add: first backup_path_memory)
  assume other: "p \<noteq> backup_path self p"
  note second = process_twice [OF r e wr other, of enc]
  show "\<not> isl (fst (process_text_file enc (fst (snd (process_text_file enc self w p)))
                       (snd (snd (process_text_file enc self w p))) p))"
    by (simp add: second)
  show "snd (snd (process_text_file enc (fst (snd (process_text_file enc self w p)))
                       (snd (snd (process_text_file enc self w p))) p)) =
             w\<lparr>drawn := drawn w + 96,
               files := (files w)(backup_path self p \<mapsto>
                          File (Text (enc (map (entropy w) [drawn w + 48 ..< drawn w + 80]) (clock w)
                                          (map (entropy w) [drawn w + 80 ..< drawn w + 96]) body))),
               notices := notices w @ [backup_path self p, backup_path self p]\<rparr>"
    by (simp add: second)
qed

theorem backup_written_and_overwritten_witness:
  "read_text demo_start ''test_log.txt'' = Inr test_content
   \<and> py_in ''energetic'' (py_lower test_content)
   \<and> writable demo_start (backup_path demo_filter ''test_log.txt'')
   \<and> ''test_log.txt'' \<noteq> backup_path demo_filter ''test_log.txt''
   \<and> \<not> isl (fst demo_once)
   \<and> files (snd (snd demo_once)) =
        (files demo_start)(''private_logs/test_log_030a11181f262d343b424950575e656c.enc'' \<mapsto>
           File (Text (demo_fernet (map (entropy demo_start) [drawn demo_start ..< drawn demo_start + 32])
                         (clock demo_start)
                         (map (entropy demo_start) [drawn demo_start + 32 ..< drawn demo_start + 48])
                         test_content)))
   \<and> files (snd (snd demo_twice)) =
        (files demo_start)(''private_logs/test_log_030a11181f262d343b424950575e656c.enc'' \<mapsto>
           File (Text (demo_fernet (map (entropy demo_start) [drawn demo_start + 48 ..< drawn demo_start + 80])
                         (clock demo_start)
                         (map (entropy demo_start) [drawn demo_start + 80 ..< drawn demo_start + 96])
                         test_content)))"
proof -
  have other: "''test_log.txt'' \<noteq> backup_path demo_filter ''test_log.txt''"
    by (simp add: demo_backup_path)
  note all = backup_written_and_overwritten
         [OF demo_reads_test_log test_content_energetic demo_backup_writable, of demo_fernet]
  have a: "\<not> isl (fst demo_once)"
    unfolding demo_once_def by (rule all [THEN conjunct1])
  have b: "files (snd (snd demo_once)) =
        (files demo_start)(backup_path demo_filter ''test_log.txt'' \<mapsto>
           File (Text (demo_fernet (map (entropy demo_start) [drawn demo_start ..< drawn demo_start + 32])
                         (clock demo_start)
                         (map (entropy demo_start) [drawn demo_start + 32 ..< drawn demo_start + 48])
                         test_content)))"
    unfolding demo_once_def by (simp add: all [THEN conjunct2, THEN conjunct1])
  note again = all [THEN conjunct2, THEN conjunct2, THEN conjunct2, THEN mp, OF other]
  have c: "files (snd (snd demo_twice)) =
        (files demo_start)(backup_path demo_filter ''test_log.txt'' \<mapsto>
           File (Text (demo_fernet (map (entropy demo_start) [drawn demo_start + 48 ..< drawn demo_start + 80])
                         (clock demo_start)
                         (map (entropy demo_start) [drawn demo_start + 80 ..< drawn demo_start + 96])
                         test_content)))"
    unfolding demo_twice_def demo_once_def by (simp add: again [THEN conjunct2])
  from a b c other demo_reads_test_log test_content_energetic demo_backup_writable
  show ?thesis
    by (simp only: demo_backup_path simp_thms)
qed

text \<open>
  C1 as stated fails: the second call on the same file by the same instance returns a
  message as the first did, and the file system holds the same paths after it as before
  it. The one backup file was written over; there are not two.
\<close>

theorem second_backup_counterexample:
  "py_in ''energetic'' (py_lower test_content)
   \<and> read_text demo_start ''test_log.txt'' = Inr test_content
   \<and> \<not> isl (fst demo_once) \<and> \<not> isl (fst demo_twice)
   \<and> dom (files (snd (snd demo_twice))) = dom (files (snd (snd demo_once)))"
proof -
  have other: "''test_log.txt'' \<noteq> backup_path demo_filter ''test_log.txt''"
    by (simp add: demo_backup_path)
  note once = process_preserved
    [OF demo_reads_test_log test_content_energetic demo_backup_writable, of demo_fernet]
  note twice = process_twice
    [OF demo_reads_test_log test_content_energetic demo_backup_writable other, of demo_fernet]
  have o: "demo_once = (Inr (''Processed + preserved '' @ ''test_log.txt'' @ '': ''
             @ projr (fst (sanitize_and_focus_context demo_filter test_content))),
      demo_filter\<lparr>symbolic_memory := (symbolic_memory demo_filter)(''text_section'' \<mapsto>
             \<lparr>content = test_content,
              traits = fst (extract_symbolic_traits demo_filter test_content)\<rparr>)\<rparr>,
      demo_start\<lparr>drawn := drawn demo_start + 48,
        files := (files demo_start)(backup_path demo_filter ''test_log.txt'' \<mapsto>
                   File (Text (demo_fernet
                     (map (entropy demo_start) [drawn demo_start ..< drawn demo_start + 32])
                     (clock demo_start)
                     (map (entropy demo_start) [drawn demo_start + 32 ..< drawn demo_start + 48])
                     test_content))),
        notices := notices demo_start @ [backup_path demo_filter ''test_log.txt'']\<rparr>)"
    unfolding demo_once_def by (rule once)
  have t: "demo_twice = (Inr (''Processed + preserved '' @ ''test_log.txt'' @ '': ''
             @ projr (fst (sanitize_and_focus_context demo_filter test_content))),
      demo_filter\<lparr>symbolic_memory := (symbolic_memory demo_filter)(''text_section'' \<mapsto>
             \<lparr>content = test_content,
              traits = fst (extract_symbolic_traits demo_filter test_content)\<rparr>)\<rparr>,
      demo_start\<lparr>drawn := drawn demo_start + 96,
        files := (files demo_start)(backup_path demo_filter ''test_log.txt'' \<mapsto>
                   File (Text (demo_fernet
                     (map (entropy demo_start) [drawn demo_start + 48 ..< drawn demo_start + 80])
                     (clock demo_start)
                     (map (entropy demo_start) [drawn demo_start + 80 ..< drawn demo_start + 96])
                     test_content))),
        notices := notices demo_start
                     @ [backup_path demo_filter ''test_log.txt'',
                        backup_path demo_filter ''test_log.txt'']\<rparr>)"
    unfolding demo_twice_def demo_once_def by (rule twice)
  have "\<not> isl (fst demo_once)" "\<not> isl (fst demo_twice)"
    "dom (files (snd (snd demo_twice))) = dom (files (snd (snd demo_once)))"
    by (simp_all add: o t)
  with test_content_energetic demo_reads_test_log show ?thesis by blast
qed

end
